theory Spec2Isabelle
  imports Main "HOL-Library.Sublist"
begin

section \<open>JavaScript strings\<close>

text \<open>
  A JavaScript string is a sequence of UTF-16 code units. It is modelled as a
  \<^typ>\<open>string\<close>, one \<^typ>\<open>char\<close> for each code unit, so the model covers
  the strings whose code units are all below 256 (ASCII and Latin-1). On these strings
  \<^verbatim>\<open>toLowerCase\<close> keeps the length, and the functions below are the
  restrictions of the JavaScript ones to code units below 256.
\<close>

definition isWhiteSpace :: "char \<Rightarrow> bool" where
  \<comment> \<open>what \<^verbatim>\<open>\s\<close> matches and \<^verbatim>\<open>trim\<close> removes:
      TAB, LF, VT, FF, CR, SPACE and NO-BREAK SPACE\<close>
  "isWhiteSpace c = (let n = (of_char c :: int) in (9 \<le> n \<and> n \<le> 13) \<or> n = 32 \<or> n = 160)"

definition isLineTerminator :: "char \<Rightarrow> bool" where
  \<comment> \<open>what \<^verbatim>\<open>.\<close> does not match: LF and CR\<close>
  "isLineTerminator c = (let n = (of_char c :: int) in n = 10 \<or> n = 13)"

definition toLowerChar :: "char \<Rightarrow> char" where
  \<comment> \<open>A-Z, and the Latin-1 capitals 192-214 and 216-222, move up by 32\<close>
  "toLowerChar c =
     (let n = (of_char c :: int)
      in if (65 \<le> n \<and> n \<le> 90) \<or> (192 \<le> n \<and> n \<le> 214) \<or> (216 \<le> n \<and> n \<le> 222)
         then char_of (n + 32) else c)"

definition toLowerCase :: "string \<Rightarrow> string" where
  "toLowerCase s = map toLowerChar s"

definition canonicalize :: "char \<Rightarrow> char" where
  \<comment> \<open>the case folding of a regular expression with the flag \<^verbatim>\<open>i\<close>: the upper-case
      form, when that is again one code unit of the model (a-z, and 224-254 except 247)\<close>
  "canonicalize c =
     (let n = (of_char c :: int)
      in if (97 \<le> n \<and> n \<le> 122) \<or> (224 \<le> n \<and> n \<le> 246) \<or> (248 \<le> n \<and> n \<le> 254)
         then char_of (n - 32) else c)"

definition startsWith :: "string \<Rightarrow> string \<Rightarrow> bool" where
  "startsWith s p = (take (length p) s = p)"

fun includes_str :: "string \<Rightarrow> string \<Rightarrow> bool" where
  "includes_str [] p = (p = [])"
| "includes_str (c # cs) p = (startsWith (c # cs) p \<or> includes_str cs p)"

definition substring :: "string \<Rightarrow> nat \<Rightarrow> string" where
  \<comment> \<open>\<^verbatim>\<open>s.substring(n)\<close>: a start beyond the end gives the empty string\<close>
  "substring s n = drop n s"

definition trim :: "string \<Rightarrow> string" where
  "trim s = rev (dropWhile isWhiteSpace (rev (dropWhile isWhiteSpace s)))"

fun split_str :: "char \<Rightarrow> string \<Rightarrow> string list" where
  \<comment> \<open>\<^verbatim>\<open>s.split(sep)\<close> for a separator of one character: the empty string gives
      one empty piece\<close>
  "split_str sep [] = [[]]"
| "split_str sep (c # cs) =
     (if c = sep then [] # split_str sep cs
      else (case split_str sep cs of [] \<Rightarrow> [[c]] | p # ps \<Rightarrow> (c # p) # ps))"

section \<open>Device normalizer\<close>

datatype category = Tablet | Smartwatch | Phone

fun categoryKey :: "category \<Rightarrow> string" where
  "categoryKey Tablet = ''tablet''"
| "categoryKey Smartwatch = ''smartwatch''"
| "categoryKey Phone = ''phone''"

definition categorizeDevice :: "string \<Rightarrow> category" where
  "categorizeDevice deviceName =
     (let name = toLowerCase deviceName
      in if includes_str name ''tablet'' \<or> includes_str name ''ipad'' \<or> includes_str name ''tab''
         then Tablet
         else if includes_str name ''watch'' \<or> includes_str name ''band''
         then Smartwatch
         else Phone)"

subsection \<open>The two suffix patterns of extractModelName\<close>

text \<open>
  Both patterns have the shape \<^verbatim>\<open>/\s*(T1|...|Tn).*$/i\<close>, without the flags
  \<^verbatim>\<open>g\<close>, \<^verbatim>\<open>m\<close> and \<^verbatim>\<open>s\<close>. A match that starts at some position
  takes a run of white space, one of the tokens up to case, and then every remaining
  character, none of which may be a line terminator, up to the end of the input.
  \<^verbatim>\<open>replace\<close> takes the leftmost position where a match starts; since every match
  extends to the end of the input, replacing it by the empty string keeps the characters
  before that position and nothing else.
\<close>

definition storageTokens :: "string list" where
  "storageTokens = [''128GB'', ''256GB'', ''512GB'', ''1TB'', ''64GB'', ''32GB'', ''16GB'']"

definition colorTokens :: "string list" where
  "colorTokens =
     [''Black'', ''White'', ''Blue'', ''Red'', ''Gold'', ''Silver'', ''Space Gray'', ''Titanium'']"

definition tokenAt :: "string \<Rightarrow> string \<Rightarrow> bool" where
  \<comment> \<open>the token, up to case, and then \<^verbatim>\<open>.*$\<close>\<close>
  "tokenAt t s =
     (if map canonicalize (take (length t) s) = map canonicalize t
      then \<not> list_ex isLineTerminator (drop (length t) s) else False)"

definition matchAt :: "string list \<Rightarrow> string \<Rightarrow> bool" where
  \<comment> \<open>a match of the whole pattern that starts at the head of \<open>s\<close>, with \<open>k\<close> characters
      of white space\<close>
  "matchAt toks s =
     list_ex (\<lambda>k. list_ex (\<lambda>t. tokenAt t (drop k s)) toks)
       [0 ..< Suc (length (takeWhile isWhiteSpace s))]"

fun removeSuffixMatch :: "string list \<Rightarrow> string \<Rightarrow> string" where
  \<comment> \<open>\<^verbatim>\<open>s.replace(/\s*(T1|...|Tn).*$/i, '')\<close>\<close>
  "removeSuffixMatch toks [] = []"
| "removeSuffixMatch toks (c # cs) =
     (if matchAt toks (c # cs) then [] else c # removeSuffixMatch toks cs)"

definition extractModelName :: "string \<Rightarrow> string \<Rightarrow> string" where
  "extractModelName deviceName brandName =
     (let model = deviceName;
          model = (if startsWith (toLowerCase model) (toLowerCase brandName)
                   then trim (substring model (length brandName)) else model);
          model = removeSuffixMatch storageTokens model;
          model = removeSuffixMatch colorTokens model
      in if trim model \<noteq> [] then trim model else deviceName)"

definition extractStorageVariants :: "string option \<Rightarrow> string list" where
  "extractStorageVariants storage =
     (case storage of
        None \<Rightarrow> []
      | Some s \<Rightarrow> if s = [] then [] else filter (\<lambda>v. length v > 0) (map trim (split_str (CHR '','') s)))"


section \<open>Data model\<close>

text \<open>
  The interfaces \<^verbatim>\<open>MobileAPIDevice\<close>, \<^verbatim>\<open>MobileAPIManufacturer\<close> and
  \<^verbatim>\<open>DeviceCatalog\<close>. An optional field is an \<^typ>\<open>'a option\<close>. The nested
  \<^verbatim>\<open>brand?: { name: string }\<close> has one field, so \<open>brand\<close> holds that name,
  and \<^verbatim>\<open>device.brand?.name\<close> reads it.
\<close>

record MobileAPIDevice =
  device_id :: int
  name :: string
  brand :: "string option"
  manufacturer_name :: "string option"
  brand_name :: "string option"
  storage :: "string option"

datatype MobileAPIManufacturer =
  Manufacturer (mfr_id: int) (mfr_name: string) (website_url: "string option")

record model_entry =
  variants :: "string list"

record brand_entry =
  models :: "string \<rightharpoonup> model_entry"

record category_entry =
  brands :: "string \<rightharpoonup> brand_entry"

record catalog_metadata =
  lastUpdated :: string
  version :: string
  source :: string

record DeviceCatalog =
  metadata :: catalog_metadata
  categories :: "string \<rightharpoonup> category_entry"

text \<open>
  The mappings of the catalog are plain JavaScript objects, each modelled by the map of
  its own properties. Reading \<^verbatim>\<open>obj[key]\<close> also finds the properties that every
  plain object inherits from \<^verbatim>\<open>Object.prototype\<close>: they are functions, so they are
  truthy, and they have none of the fields \<^verbatim>\<open>brands\<close>, \<^verbatim>\<open>models\<close>,
  \<^verbatim>\<open>variants\<close>. The job runs on Deno, which removes the accessor
  \<^verbatim>\<open>__proto__\<close> from \<^verbatim>\<open>Object.prototype\<close>: that name is a key like any other,
  and is not in the list.
\<close>

definition objectPrototypeKeys :: "string list" where
  "objectPrototypeKeys =
     [''constructor'', ''hasOwnProperty'', ''isPrototypeOf'', ''propertyIsEnumerable'',
      ''toLocaleString'', ''toString'', ''valueOf'', ''__defineGetter__'',
      ''__defineSetter__'', ''__lookupGetter__'', ''__lookupSetter__'']"

definition truthyProperty :: "(string \<rightharpoonup> 'a) \<Rightarrow> string \<Rightarrow> bool" where
  \<comment> \<open>\<^verbatim>\<open>obj[key]\<close> is truthy: an own property (always an object here) or an inherited one\<close>
  "truthyProperty obj key = (obj key \<noteq> None \<or> key \<in> set objectPrototypeKeys)"

definition js_or :: "string option \<Rightarrow> string \<Rightarrow> string" where
  \<comment> \<open>\<^verbatim>\<open>a || b\<close> for a string \<open>a\<close> that may be undefined: the empty string is falsy\<close>
  "js_or a b = (case a of None \<Rightarrow> b | Some s \<Rightarrow> if s = [] then b else s)"

section \<open>Catalog builder\<close>

text \<open>
  A \<^verbatim>\<open>TypeError\<close> ("cannot read properties of undefined") leaves the catalog as it
  was mutated up to the throw, so both outcomes carry the catalog.
\<close>

datatype 'a outcome = Normal 'a | TypeError 'a

fun catalogOf :: "'a outcome \<Rightarrow> 'a" where
  "catalogOf (Normal c) = c"
| "catalogOf (TypeError c) = c"

fun mergeVariants :: "string list \<Rightarrow> string list \<Rightarrow> string list" where
  \<comment> \<open>the loop over \<^verbatim>\<open>storageVariants\<close> that pushes what \<^verbatim>\<open>existingVariants\<close> lacks\<close>
  "mergeVariants existingVariants [] = existingVariants"
| "mergeVariants existingVariants (variant # rest) =
     mergeVariants
       (if variant \<in> set existingVariants then existingVariants
        else existingVariants @ [variant]) rest"

definition setModel :: "string \<Rightarrow> string \<Rightarrow> string \<Rightarrow> model_entry \<Rightarrow> DeviceCatalog \<Rightarrow> DeviceCatalog" where
  \<comment> \<open>the catalog after a write to \<^verbatim>\<open>categories[c].brands[b].models[m]\<close>, all of whose
      ancestors exist\<close>
  "setModel c b m me cat =
     (case categories cat c of
        None \<Rightarrow> cat
      | Some ce \<Rightarrow>
          (case brands ce b of
             None \<Rightarrow> cat
           | Some be \<Rightarrow>
               cat\<lparr>categories := (categories cat)
                 (c \<mapsto> ce\<lparr>brands := (brands ce)
                   (b \<mapsto> be\<lparr>models := (models be)(m \<mapsto> me)\<rparr>)\<rparr>)\<rparr>))"

definition initCategory :: "string \<Rightarrow> DeviceCatalog \<Rightarrow> DeviceCatalog" where
  \<comment> \<open>\<^verbatim>\<open>if (!catalog.categories[category]) catalog.categories[category] = { brands: {} }\<close>\<close>
  "initCategory c cat =
     (if truthyProperty (categories cat) c then cat
      else cat\<lparr>categories := (categories cat)(c \<mapsto> \<lparr>brands = Map.empty\<rparr>)\<rparr>)"

definition initBrand :: "string \<Rightarrow> string \<Rightarrow> DeviceCatalog \<Rightarrow> DeviceCatalog outcome" where
  \<comment> \<open>the same for \<^verbatim>\<open>categories[category].brands[brandName]\<close>; an inherited
      \<^verbatim>\<open>categories[category]\<close> has no \<^verbatim>\<open>brands\<close>\<close>
  "initBrand c b cat =
     (case categories cat c of
        None \<Rightarrow> TypeError cat
      | Some ce \<Rightarrow>
          if truthyProperty (brands ce) b then Normal cat
          else Normal (cat\<lparr>categories := (categories cat)
                 (c \<mapsto> ce\<lparr>brands := (brands ce)(b \<mapsto> \<lparr>models = Map.empty\<rparr>)\<rparr>)\<rparr>))"

definition lookupBrand :: "string \<Rightarrow> string \<Rightarrow> DeviceCatalog \<Rightarrow> brand_entry option" where
  "lookupBrand c b cat = (case categories cat c of None \<Rightarrow> None | Some ce \<Rightarrow> brands ce b)"

definition lookupModel :: "string \<Rightarrow> string \<Rightarrow> string \<Rightarrow> DeviceCatalog \<Rightarrow> model_entry option" where
  "lookupModel c b m cat = (case lookupBrand c b cat of None \<Rightarrow> None | Some be \<Rightarrow> models be m)"

definition initModel :: "string \<Rightarrow> string \<Rightarrow> string \<Rightarrow> DeviceCatalog \<Rightarrow> DeviceCatalog outcome" where
  \<comment> \<open>the same for \<^verbatim>\<open>.models[modelName]\<close>; an inherited \<^verbatim>\<open>brands[brandName]\<close>
      has no \<^verbatim>\<open>models\<close>\<close>
  "initModel c b m cat =
     (case lookupBrand c b cat of
        None \<Rightarrow> TypeError cat
      | Some be \<Rightarrow>
          if truthyProperty (models be) m then Normal cat
          else Normal (setModel c b m \<lparr>variants = []\<rparr> cat))"

definition addVariants ::
  "string \<Rightarrow> string \<Rightarrow> string \<Rightarrow> string list \<Rightarrow> string option \<Rightarrow> DeviceCatalog \<Rightarrow> DeviceCatalog outcome" where
  \<comment> \<open>the last \<^verbatim>\<open>if\<close> of the device loop; an inherited \<^verbatim>\<open>models[modelName]\<close> has no
      \<^verbatim>\<open>variants\<close>, and \<^verbatim>\<open>undefined.includes\<close> throws\<close>
  "addVariants c b m storageVariants rawStorage cat =
     (if length storageVariants > 0 then
        (case lookupModel c b m cat of
           None \<Rightarrow> TypeError cat
         | Some me \<Rightarrow>
             Normal (setModel c b m (me\<lparr>variants := mergeVariants (variants me) storageVariants\<rparr>) cat))
      else
        (let variantName = trim (m @ '' '' @ js_or rawStorage [])
         in if variantName = [] then Normal cat
            else (case lookupModel c b m cat of
                    None \<Rightarrow> TypeError cat
                  | Some me \<Rightarrow>
                      if variantName \<in> set (variants me) then Normal cat
                      else Normal (setModel c b m (me\<lparr>variants := variants me @ [variantName]\<rparr>) cat))))"

definition addToCatalog ::
  "string \<Rightarrow> string \<Rightarrow> string \<Rightarrow> string list \<Rightarrow> string option \<Rightarrow> DeviceCatalog \<Rightarrow> DeviceCatalog outcome" where
  \<comment> \<open>the fold of one normalized device into the catalog\<close>
  "addToCatalog c b m storageVariants rawStorage cat =
     (case initBrand c b (initCategory c cat) of
        TypeError cat1 \<Rightarrow> TypeError cat1
      | Normal cat1 \<Rightarrow>
          (case initModel c b m cat1 of
             TypeError cat2 \<Rightarrow> TypeError cat2
           | Normal cat2 \<Rightarrow> addVariants c b m storageVariants rawStorage cat2))"

definition deviceNameOf :: "MobileAPIDevice \<Rightarrow> string" where
  "deviceNameOf device = js_or (Some (name device)) (js_or (brand_name device) ''Unknown Device'')"

definition brandNameOf :: "string \<Rightarrow> MobileAPIDevice \<Rightarrow> string" where
  "brandNameOf manufacturerName device =
     js_or (brand device)
       (js_or (manufacturer_name device) (js_or (brand_name device) manufacturerName))"

definition processDevice :: "string \<Rightarrow> MobileAPIDevice \<Rightarrow> DeviceCatalog \<Rightarrow> DeviceCatalog outcome" where
  "processDevice manufacturerName device cat =
     (let deviceName = deviceNameOf device;
          brandName = brandNameOf manufacturerName device;
          category = categorizeDevice deviceName;
          modelName = extractModelName deviceName brandName;
          storageVariants = extractStorageVariants (storage device)
      in addToCatalog (categoryKey category) brandName modelName storageVariants (storage device) cat)"

fun processDevices :: "string \<Rightarrow> MobileAPIDevice list \<Rightarrow> DeviceCatalog \<Rightarrow> DeviceCatalog outcome" where
  "processDevices manufacturerName [] cat = Normal cat"
| "processDevices manufacturerName (device # devices) cat =
     (case processDevice manufacturerName device cat of
        TypeError cat' \<Rightarrow> TypeError cat'
      | Normal cat' \<Rightarrow> processDevices manufacturerName devices cat')"


section \<open>The publisher job\<close>

text \<open>
  What the job reads from outside is the \<open>world\<close>: the environment variables, the
  clock, the exception that \<^verbatim>\<open>createClient\<close> throws (if any), the outcome of the
  manufacturers request, of the devices request of the \<open>i\<close>-th loop iteration, and of
  the \<open>n\<close>-th call of \<^verbatim>\<open>upload\<close>. A request (\<^verbatim>\<open>makeApiRequest\<close> followed by
  \<^verbatim>\<open>json()\<close>) throws an error with a message or yields a JSON value, which is an
  array or not. What the job does to the outside is the \<open>trace\<close>: the sleeps, the
  requests, the warnings and the uploads, in order (the \<^verbatim>\<open>console.log\<close> and
  \<^verbatim>\<open>console.error\<close> lines and the statistics of the response body are left out).
\<close>

datatype 'a fetched = FetchError string | Fetched 'a

datatype 'a json_array = NotArray | Array "'a list"

datatype upload_result = UploadOk | UploadError string | UploadThrew string

record world =
  INTERNAL_API_SECRET :: "string option"
  INTERNAL_API_BASE_URL :: "string option"
  SITE_URL :: "string option"
  now :: string
  createClientError :: "string option"
  manufacturersResponse :: "MobileAPIManufacturer json_array fetched"
  devicesResponse :: "nat \<Rightarrow> MobileAPIDevice json_array fetched"
  uploadResponse :: "nat \<Rightarrow> upload_result"

datatype failure_cause = RequestFailed string | TypeErrorThrown

datatype warning =
    NoDevicesFound string
  | NoDevicesEvent string
  | FailedToFetchDevices string failure_cause
  | UploadAttemptFailed nat string

datatype event =
    Sleep nat
  | FetchManufacturers
  | FetchDevices string
  | Warn warning
  | RetryingUpload nat
  | Upload string string bool

datatype response = Success string | Failure string

fun status :: "response \<Rightarrow> nat" where
  "status (Success stamp) = 200"
| "status (Failure message) = 500"

record run =
  response :: response
  trace :: "event list"
  published :: "DeviceCatalog option"

definition RATE_LIMIT_DELAY :: nat where
  "RATE_LIMIT_DELAY = 1000"

definition maxManufacturers :: nat where
  "maxManufacturers = 50"

definition maxRetries :: nat where
  "maxRetries = 3"

definition initialCatalog :: "string \<Rightarrow> DeviceCatalog" where
  "initialCatalog timestamp =
     \<lparr>metadata = \<lparr>lastUpdated = timestamp, version = ''1.0.0'', source = ''MobileAPI.dev''\<rparr>,
      categories = [''phone'' \<mapsto> \<lparr>brands = Map.empty\<rparr>,
                    ''tablet'' \<mapsto> \<lparr>brands = Map.empty\<rparr>,
                    ''smartwatch'' \<mapsto> \<lparr>brands = Map.empty\<rparr>]\<rparr>"

definition processManufacturer ::
  "world \<Rightarrow> nat \<Rightarrow> MobileAPIManufacturer \<Rightarrow> DeviceCatalog \<times> event list \<Rightarrow> DeviceCatalog \<times> event list" where
  \<comment> \<open>one iteration of the loop over the manufacturers: its \<^verbatim>\<open>try\<close> and \<^verbatim>\<open>catch\<close>\<close>
  "processManufacturer w i manufacturer st =
     (let manufacturerName = mfr_name manufacturer;
          cat = fst st;
          tr = snd st @ [Sleep RATE_LIMIT_DELAY, FetchDevices manufacturerName]
      in case devicesResponse w i of
           FetchError message \<Rightarrow>
             (cat, tr @ [Warn (FailedToFetchDevices manufacturerName (RequestFailed message))])
         | Fetched NotArray \<Rightarrow>
             (cat, tr @ [Warn (NoDevicesFound manufacturerName), Warn (NoDevicesEvent manufacturerName)])
         | Fetched (Array devices) \<Rightarrow>
             if length devices = 0 then
               (cat, tr @ [Warn (NoDevicesFound manufacturerName), Warn (NoDevicesEvent manufacturerName)])
             else
               (case processDevices manufacturerName devices cat of
                  Normal cat' \<Rightarrow> (cat', tr)
                | TypeError cat' \<Rightarrow>
                    (cat', tr @ [Warn (FailedToFetchDevices manufacturerName TypeErrorThrown)])))"

fun processManufacturers ::
  "world \<Rightarrow> nat \<Rightarrow> MobileAPIManufacturer list \<Rightarrow> DeviceCatalog \<times> event list \<Rightarrow> DeviceCatalog \<times> event list" where
  "processManufacturers w i [] st = st"
| "processManufacturers w i (manufacturer # rest) st =
     processManufacturers w (Suc i) rest (processManufacturer w i manufacturer st)"

function uploadLoop ::
  "(nat \<Rightarrow> upload_result) \<Rightarrow> nat \<Rightarrow> string option \<Rightarrow> event list \<Rightarrow> (string + string option) \<times> event list" where
  \<comment> \<open>the \<^verbatim>\<open>while\<close> loop of the upload, from the state \<open>retryCount\<close>, \<open>uploadError\<close> (the
      message of the last error, if any): \<open>Inl\<close> when \<^verbatim>\<open>upload\<close> itself throws, else \<open>Inr\<close>
      of the final \<open>uploadError\<close>\<close>
  "uploadLoop up retryCount uploadError tr =
     (if retryCount \<le> maxRetries then
        (let tr1 = (if retryCount > 0 then tr @ [RetryingUpload retryCount, Sleep 1000] else tr);
             tr2 = tr1 @ [Upload ''catalogs'' ''deviceCatalog.json'' True]
         in case up retryCount of
              UploadThrew message \<Rightarrow> (Inl message, tr2)
            | UploadOk \<Rightarrow> (Inr None, tr2)
            | UploadError message \<Rightarrow>
                uploadLoop up (Suc retryCount) (Some message)
                  (tr2 @ [Warn (UploadAttemptFailed (retryCount + 1) message)]))
      else (Inr uploadError, tr))"
  by pat_completeness auto
termination
  by (relation "measure (\<lambda>(up, retryCount, uploadError, tr). Suc maxRetries - retryCount)") auto

definition failed :: "string \<Rightarrow> event list \<Rightarrow> DeviceCatalog option \<Rightarrow> run" where
  \<comment> \<open>the outer \<^verbatim>\<open>catch\<close>: the response with status 500 and the message of the error\<close>
  "failed message tr cat = \<lparr>response = Failure message, trace = tr, published = cat\<rparr>"

definition serve :: "world \<Rightarrow> run" where
  "serve w =
     (if js_or (INTERNAL_API_SECRET w) [] = [] then
        failed ''INTERNAL_API_SECRET environment variable is not set'' [] None
      else if (case INTERNAL_API_BASE_URL w of
                 Some url \<Rightarrow> url
               | None \<Rightarrow> (case SITE_URL w of Some url \<Rightarrow> url | None \<Rightarrow> [])) = [] then
        failed ''INTERNAL_API_BASE_URL or SITE_URL environment variable is not set'' [] None
      else
        (case createClientError w of
           Some message \<Rightarrow> failed message [] None
         | None \<Rightarrow>
             (case manufacturersResponse w of
                FetchError message \<Rightarrow> failed message [FetchManufacturers] None
              | Fetched NotArray \<Rightarrow>
                  failed ''No manufacturers found or invalid response format'' [FetchManufacturers] None
              | Fetched (Array manufacturers) \<Rightarrow>
                  if length manufacturers = 0 then
                    failed ''No manufacturers found or invalid response format'' [FetchManufacturers] None
                  else
                    (let catalog = initialCatalog (now w);
                         manufacturersToProcess = take maxManufacturers manufacturers;
                         st = processManufacturers w 0 manufacturersToProcess
                                (catalog, [FetchManufacturers]);
                         up = uploadLoop (uploadResponse w) 0 None (snd st)
                     in case fst up of
                          Inl message \<Rightarrow> failed message (snd up) (Some (fst st))
                        | Inr (Some message) \<Rightarrow>
                            failed (''Failed to upload catalog to Storage after 3 retries: '' @ message)
                              (snd up) (Some (fst st))
                        | Inr None \<Rightarrow>
                            \<lparr>response = Success (lastUpdated (metadata (fst st))),
                             trace = snd up, published = Some (fst st)\<rparr>))))"

section \<open>The API route that reads the catalog\<close>

text \<open>
  The route \<^verbatim>\<open>GET /api/device-catalog.json\<close>. Its world: the storage download throws,
  or returns \<^verbatim>\<open>{ data, error }\<close> (the text of the blob, the message of the error);
  reading the local file throws or gives its text; \<^verbatim>\<open>JSON.parse\<close> is a partial
  function, \<open>None\<close> where it throws a \<^verbatim>\<open>SyntaxError\<close>.
\<close>

datatype download_result = DownloadThrew | Download "string option" "string option"

datatype 'j body = CatalogBody 'j | ErrorBody string string

record 'j http_response =
  http_status :: nat
  http_body :: "'j body"
  cache_max_age :: "nat option"
  x_catalog_source :: "string option"

definition serveFromStorage :: "(string \<Rightarrow> 'j option) \<Rightarrow> download_result \<Rightarrow> 'j http_response option" where
  \<comment> \<open>the inner \<^verbatim>\<open>try\<close>: the response it returns, or \<open>None\<close> when control goes on to the
      fallback (a storage error, no data, or an exception of the download or of the parser)\<close>
  "serveFromStorage parse download =
     (case download of
        DownloadThrew \<Rightarrow> None
      | Download data error \<Rightarrow>
          (case (error, data) of
             (None, Some text) \<Rightarrow>
               (case parse text of
                  None \<Rightarrow> None
                | Some catalog \<Rightarrow>
                    Some \<lparr>http_status = 200, http_body = CatalogBody catalog,
                          cache_max_age = Some 3600, x_catalog_source = Some ''supabase-storage''\<rparr>)
           | _ \<Rightarrow> None))"


definition serveFromLocalFile :: "(string \<Rightarrow> 'j option) \<Rightarrow> string option \<Rightarrow> 'j http_response" where
  \<comment> \<open>the second \<^verbatim>\<open>try\<close> with its \<^verbatim>\<open>catch\<close>: \<^verbatim>\<open>readFileSync\<close> or the parser may throw\<close>
  "serveFromLocalFile parse localFile =
     (case (case localFile of None \<Rightarrow> None | Some content \<Rightarrow> parse content) of
        Some catalog \<Rightarrow>
          \<lparr>http_status = 200, http_body = CatalogBody catalog,
           cache_max_age = Some 300, x_catalog_source = Some ''local-fallback''\<rparr>
      | None \<Rightarrow>
          \<lparr>http_status = 500,
           http_body = ErrorBody ''Failed to load device catalog''
             ''Both Supabase Storage and local file failed. Please ensure the catalogs bucket exists in Supabase Storage or the local file is available.'',
           cache_max_age = None, x_catalog_source = None\<rparr>)"

definition GET :: "(string \<Rightarrow> 'j option) \<Rightarrow> download_result \<Rightarrow> string option \<Rightarrow> 'j http_response" where
  \<comment> \<open>nothing in the two inner blocks escapes them, so the outer \<^verbatim>\<open>catch\<close> is not
      reached\<close>
  "GET parse download localFile =
     (case serveFromStorage parse download of
        Some r \<Rightarrow> r
      | None \<Rightarrow> serveFromLocalFile parse localFile)"


section \<open>Readings of the specification\<close>

text \<open>
  The brand of a device as the specification words it: the first field that is defined,
  in the order nested brand name, manufacturer name, flat brand name, and the
  manufacturer of the current iteration at last.
\<close>

definition brandNameOf_firstDefined :: "string \<Rightarrow> MobileAPIDevice \<Rightarrow> string" where
  "brandNameOf_firstDefined manufacturerName device =
     (case brand device of
        Some b \<Rightarrow> b
      | None \<Rightarrow>
          (case manufacturer_name device of
             Some m \<Rightarrow> m
           | None \<Rightarrow> (case brand_name device of Some f \<Rightarrow> f | None \<Rightarrow> manufacturerName)))"

text \<open>
  The events of one upload attempt as the specification describes them: attempt \<open>0\<close> is
  the upload alone, a retry announces itself and waits 1000 ms before it uploads; every
  upload overwrites (\<open>upsert\<close>). \<open>failedAttempts msg n k\<close> are the attempts \<open>n\<close> to
  \<open>k - 1\<close>, each followed by the warning with its error message.
\<close>

fun isUpload :: "event \<Rightarrow> bool" where
  "isUpload (Upload bucket path upsert) = True"
| "isUpload e = False"

definition attemptEvents :: "nat \<Rightarrow> event list" where
  "attemptEvents i =
     (if i = 0 then [] else [RetryingUpload i, Sleep 1000]) @
     [Upload ''catalogs'' ''deviceCatalog.json'' True]"

definition failedAttempts :: "(nat \<Rightarrow> string) \<Rightarrow> nat \<Rightarrow> nat \<Rightarrow> event list" where
  "failedAttempts msg n k =
     concat (map (\<lambda>i. attemptEvents i @ [Warn (UploadAttemptFailed (i + 1) (msg i))]) [n ..< k])"

text \<open>A world for the examples: one manufacturer without devices, and the given uploads.\<close>

definition retryWorld :: "(nat \<Rightarrow> upload_result) \<Rightarrow> world" where
  "retryWorld up =
     \<lparr>INTERNAL_API_SECRET = Some ''secret'', INTERNAL_API_BASE_URL = None,
      SITE_URL = Some ''https://example.org'', now = ''2025-01-01T00:00:00.000Z'',
      createClientError = None,
      manufacturersResponse = Fetched (Array [Manufacturer 1 ''Acme'' None]),
      devicesResponse = (\<lambda>i. Fetched (Array [])),
      uploadResponse = up\<rparr>"

text \<open>
  The vocabulary of the claims about the catalog: the variant list stored under a
  category, a brand and a model (empty when there is no such model); the variants that
  the specification assigns to a normalized device (its storage tokens or, without any,
  the one synthetic variant made of the model name and the raw storage field, when that
  is not empty); the key and the variants of a device; a list without its repetitions,
  each element at its first occurrence; and the two invariants of the variant lists.
\<close>

definition variantsAt :: "string \<Rightarrow> string \<Rightarrow> string \<Rightarrow> DeviceCatalog \<Rightarrow> string list" where
  "variantsAt c b m cat = (case lookupModel c b m cat of None \<Rightarrow> [] | Some me \<Rightarrow> variants me)"

definition tupleVariants :: "string \<Rightarrow> string list \<Rightarrow> string option \<Rightarrow> string list" where
  "tupleVariants m storageVariants rawStorage =
     (if length storageVariants > 0 then storageVariants
      else if trim (m @ '' '' @ js_or rawStorage []) = [] then []
      else [trim (m @ '' '' @ js_or rawStorage [])])"

definition firstSeen :: "'a list \<Rightarrow> 'a list" where
  "firstSeen xs = rev (remdups (rev xs))"

definition variantsOf :: "string \<times> string \<times> string \<Rightarrow> DeviceCatalog \<Rightarrow> string list" where
  "variantsOf k cat = (case k of (c, b, m) \<Rightarrow> variantsAt c b m cat)"

definition deviceKey :: "string \<Rightarrow> MobileAPIDevice \<Rightarrow> string \<times> string \<times> string" where
  "deviceKey manufacturerName device =
     (categoryKey (categorizeDevice (deviceNameOf device)),
      brandNameOf manufacturerName device,
      extractModelName (deviceNameOf device) (brandNameOf manufacturerName device))"

definition deviceVariants :: "string \<Rightarrow> MobileAPIDevice \<Rightarrow> string list" where
  "deviceVariants manufacturerName device =
     tupleVariants (extractModelName (deviceNameOf device) (brandNameOf manufacturerName device))
       (extractStorageVariants (storage device)) (storage device)"

definition variantsDistinct :: "DeviceCatalog \<Rightarrow> bool" where
  "variantsDistinct cat = (\<forall>c b m. distinct (variantsAt c b m cat))"

definition variantsNonEmpty :: "DeviceCatalog \<Rightarrow> bool" where
  "variantsNonEmpty cat = (\<forall>c b m. lookupModel c b m cat \<noteq> None \<longrightarrow> variantsAt c b m cat \<noteq> [])"

fun isNormal :: "'a outcome \<Rightarrow> bool" where
  "isNormal (Normal c) = True"
| "isNormal (TypeError c) = False"

text \<open>A device for the examples: a name and a storage field, no brand fields.\<close>

definition sampleDevice :: "string \<Rightarrow> string option \<Rightarrow> MobileAPIDevice" where
  "sampleDevice deviceName storageField =
     \<lparr>device_id = 1, name = deviceName, brand = None, manufacturer_name = None,
      brand_name = None, storage = storageField\<rparr>"

text \<open>The catalog has the three category keys of the normalizer, and no other.\<close>

definition threeCategories :: "DeviceCatalog \<Rightarrow> bool" where
  "threeCategories cat = (dom (categories cat) = {''phone'', ''tablet'', ''smartwatch''})"

text \<open>
  A world for the examples: the devices request of the first manufacturer fails, the
  second manufacturer has one device, and the first upload succeeds.
\<close>

definition twoManufacturersWorld :: world where
  "twoManufacturersWorld =
     \<lparr>INTERNAL_API_SECRET = Some ''secret'', INTERNAL_API_BASE_URL = Some ''https://example.org'',
      SITE_URL = None, now = ''2025-01-01T00:00:00.000Z'',
      createClientError = None,
      manufacturersResponse = Fetched (Array [Manufacturer 1 ''A'' None, Manufacturer 2 ''B'' None]),
      devicesResponse = (\<lambda>i. if i = 0 then FetchError ''HTTP 500''
                              else Fetched (Array [sampleDevice ''B X1'' (Some ''64GB'')])),
      uploadResponse = (\<lambda>n. UploadOk)\<rparr>"

text \<open>
  The model name after the first step of \<open>extractModelName\<close>, the removal of the
  brand prefix.
\<close>

definition brandStripped :: "string \<Rightarrow> string \<Rightarrow> string" where
  "brandStripped deviceName brandName =
     (if startsWith (toLowerCase deviceName) (toLowerCase brandName)
      then trim (substring deviceName (length brandName)) else deviceName)"

text \<open>
  The model name as the specification words it: after the brand prefix, a storage token
  is stripped only when the string ends with it (up to case), then a color token only
  when the string ends with it; the result is trimmed, and the device name is returned
  when nothing is left.
\<close>

definition stripTrailingToken :: "string list \<Rightarrow> string \<Rightarrow> string" where
  "stripTrailingToken toks s =
     (case filter (\<lambda>t. length t \<le> length s \<and>
                        map canonicalize (drop (length s - length t) s) = map canonicalize t) toks of
        [] \<Rightarrow> s
      | t # ts \<Rightarrow> take (length s - length t) s)"

definition extractModelName_trailing :: "string \<Rightarrow> string \<Rightarrow> string" where
  "extractModelName_trailing deviceName brandName =
     (let model = brandStripped deviceName brandName;
          model = stripTrailingToken storageTokens model;
          model = stripTrailingToken colorTokens model
      in if trim model \<noteq> [] then trim model else deviceName)"

text \<open>
  The devices of a list that the loop folds: those before the first one whose fold
  throws, all of them when none throws.
\<close>

fun foldedDevices :: "string \<Rightarrow> MobileAPIDevice list \<Rightarrow> DeviceCatalog \<Rightarrow> MobileAPIDevice list" where
  "foldedDevices manufacturerName [] cat = []"
| "foldedDevices manufacturerName (device # devices) cat =
     (case processDevice manufacturerName device cat of
        TypeError cat' \<Rightarrow> []
      | Normal cat' \<Rightarrow> device # foldedDevices manufacturerName devices cat')"

text \<open>
  Devices for the examples with the name of an inherited property: a device named
  \<^verbatim>\<open>toString\<close>, followed by two devices of the model \<^verbatim>\<open>X1\<close> that share the
  variant \<^verbatim>\<open>64GB\<close>; and the run of two manufacturers where the request of the first
  throws and the second has the device named \<^verbatim>\<open>toString\<close> before its device
  \<^verbatim>\<open>B X1\<close>.
\<close>

definition inheritedNameDevices :: "MobileAPIDevice list" where
  "inheritedNameDevices =
     [sampleDevice ''toString'' None, sampleDevice ''B X1'' (Some ''64GB''),
      sampleDevice ''B X1 Blue'' (Some ''64GB,1TB'')]"

definition inheritedNameWorld :: world where
  "inheritedNameWorld =
     \<lparr>INTERNAL_API_SECRET = Some ''secret'', INTERNAL_API_BASE_URL = Some ''https://example.org'',
      SITE_URL = None, now = ''2025-01-01T00:00:00.000Z'',
      createClientError = None,
      manufacturersResponse = Fetched (Array [Manufacturer 1 ''A'' None, Manufacturer 2 ''B'' None]),
      devicesResponse = (\<lambda>i. if i = 0 then FetchError ''HTTP 500''
                              else Fetched (Array [sampleDevice ''toString'' None,
                                                   sampleDevice ''B X1'' (Some ''64GB'')])),
      uploadResponse = (\<lambda>n. UploadOk)\<rparr>"

section \<open>Properties of the normalizer\<close>

lemma startsWith_iff_prefix: "startsWith s p \<longleftrightarrow> prefix p s"
  unfolding startsWith_def prefix_def
  by (metis append_eq_conv_conj append_take_drop_id)

lemma includes_str_iff_sublist: "includes_str s p \<longleftrightarrow> sublist p s"
proof (induction s)
  case Nil
  show ?case by auto
next
  case (Cons c cs)
  show ?case
    by (simp add: Cons.IH startsWith_iff_prefix sublist_Cons_right)
qed

lemma categorize_iPad: "categorizeDevice ''iPad Pro'' = Tablet"
  by code_simp

lemma categorize_Watch: "categorizeDevice ''Galaxy Watch 5'' = Smartwatch"
  by code_simp

lemma categorize_iPhone: "categorizeDevice ''iPhone 15'' = Phone"
  by code_simp

text \<open>
  Claim C7. For every device name, \<open>categorizeDevice\<close> returns the tablet category if the
  lower-cased name contains \<open>tablet\<close>, \<open>ipad\<close> or \<open>tab\<close>; otherwise the
  smartwatch category if it contains \<open>watch\<close> or \<open>band\<close>; otherwise the phone
  category. The tablet check comes first, then the watch check, then the default. The
  match does not depend on case: two names with the same lower-case form get the same
  category. "iPad Pro" is a tablet, "Galaxy Watch 5" a smartwatch, "iPhone 15" a phone.
\<close>

theorem categorizeDevice_rule:
  "categorizeDevice deviceName =
     (if sublist ''tablet'' (toLowerCase deviceName) \<or> sublist ''ipad'' (toLowerCase deviceName)
         \<or> sublist ''tab'' (toLowerCase deviceName) then Tablet
      else if sublist ''watch'' (toLowerCase deviceName) \<or> sublist ''band'' (toLowerCase deviceName)
      then Smartwatch else Phone)
   \<and> (toLowerCase deviceName = toLowerCase otherName \<longrightarrow>
        categorizeDevice deviceName = categorizeDevice otherName)
   \<and> categorizeDevice ''iPad Pro'' = Tablet
   \<and> categorizeDevice ''Galaxy Watch 5'' = Smartwatch
   \<and> categorizeDevice ''iPhone 15'' = Phone"
proof -
  have rule: "categorizeDevice deviceName =
     (if sublist ''tablet'' (toLowerCase deviceName) \<or> sublist ''ipad'' (toLowerCase deviceName)
         \<or> sublist ''tab'' (toLowerCase deviceName) then Tablet
      else if sublist ''watch'' (toLowerCase deviceName) \<or> sublist ''band'' (toLowerCase deviceName)
      then Smartwatch else Phone)"
    by (simp only: categorizeDevice_def Let_def includes_str_iff_sublist)
  have insensitive: "toLowerCase deviceName = toLowerCase otherName \<longrightarrow>
        categorizeDevice deviceName = categorizeDevice otherName"
    by (simp only: categorizeDevice_def Let_def) simp
  from rule insensitive categorize_iPad categorize_Watch categorize_iPhone
  show ?thesis by blast
qed

theorem categorizeDevice_rule_witness:
  "toLowerCase ''IPAD Pro'' = toLowerCase ''ipad pro''
   \<and> categorizeDevice ''IPAD Pro'' = categorizeDevice ''ipad pro''
   \<and> categorizeDevice ''ipad pro'' = Tablet"
proof -
  have h: "toLowerCase ''IPAD Pro'' = toLowerCase ''ipad pro''" by code_simp
  have t: "categorizeDevice ''ipad pro'' = Tablet" by code_simp
  from categorizeDevice_rule [of "''IPAD Pro''" "''ipad pro''"] h t show ?thesis by blast
qed

section \<open>Properties of the catalog reader\<close>

text \<open>
  Claim C9, as stated: when the storage download succeeds, the route serves the storage
  catalog with the cache lifetime of one hour. It fails when the download succeeds and
  the text of the blob is not JSON: the parser throws inside the first
  \<^verbatim>\<open>try\<close>, and the route serves the local file with the marker \<open>local-fallback\<close>
  and 300 seconds.
\<close>

theorem GET_unparsable_storage_counterexample:
  "GET (\<lambda>s. if s = ''{}'' then Some (0::nat) else None) (Download (Some ''<html>'') None) (Some ''{}'') =
     \<lparr>http_status = 200, http_body = CatalogBody 0,
      cache_max_age = Some 300, x_catalog_source = Some ''local-fallback''\<rparr>
   \<and> cache_max_age (GET (\<lambda>s. if s = ''{}'' then Some (0::nat) else None)
         (Download (Some ''<html>'') None) (Some ''{}'')) \<noteq> Some 3600"
  by (simp add: GET_def serveFromStorage_def serveFromLocalFile_def)

text \<open>
  Claim C9, amended. When the storage download succeeds and its text parses, the route
  serves the parsed storage catalog with status 200, the marker \<open>supabase-storage\<close>
  and a cache lifetime of 3600 seconds. When the download throws, returns an error,
  returns no data, or returns a text that does not parse, the route serves the local
  file with status 200, the marker \<open>local-fallback\<close> and a cache lifetime of 300
  seconds, which is less than 3600; and when the local file cannot be read or parsed
  either, it answers with status 500 and a fixed body that says that both the storage
  and the local file failed. These are all the cases of a download.
\<close>

theorem GET_storage_then_fallback:
  "(download = Download (Some text) None \<and> parse text = Some stored
      \<longrightarrow> GET parse download localFile =
            \<lparr>http_status = 200, http_body = CatalogBody stored,
             cache_max_age = Some 3600, x_catalog_source = Some ''supabase-storage''\<rparr>)
   \<and> ((download = DownloadThrew \<or> download = Download dat (Some err) \<or> download = Download None None
        \<or> (download = Download (Some text) None \<and> parse text = None))
      \<longrightarrow> localFile = Some content \<longrightarrow> parse content = Some catalog
      \<longrightarrow> GET parse download localFile =
            \<lparr>http_status = 200, http_body = CatalogBody catalog,
             cache_max_age = Some 300, x_catalog_source = Some ''local-fallback''\<rparr>)
   \<and> (300 :: nat) < 3600
   \<and> ((download = DownloadThrew \<or> download = Download dat (Some err) \<or> download = Download None None
        \<or> (download = Download (Some text) None \<and> parse text = None))
      \<longrightarrow> (localFile = None \<or> (\<exists>c. localFile = Some c \<and> parse c = None))
      \<longrightarrow> GET parse download localFile =
            \<lparr>http_status = 500,
             http_body = ErrorBody ''Failed to load device catalog''
               ''Both Supabase Storage and local file failed. Please ensure the catalogs bucket exists in Supabase Storage or the local file is available.'',
             cache_max_age = None, x_catalog_source = None\<rparr>)
   \<and> (download = DownloadThrew \<or> (\<exists>d e. download = Download d (Some e)) \<or> download = Download None None
        \<or> (\<exists>t. download = Download (Some t) None \<and> parse t = None)
        \<or> (\<exists>t s. download = Download (Some t) None \<and> parse t = Some s))"
proof -
  have split: "download = DownloadThrew \<or> (\<exists>d e. download = Download d (Some e)) \<or> download = Download None None
        \<or> (\<exists>t. download = Download (Some t) None \<and> parse t = None)
        \<or> (\<exists>t s. download = Download (Some t) None \<and> parse t = Some s)"
  proof (cases download)
    case DownloadThrew
    then show ?thesis by simp
  next
    case (Download d e)
    then show ?thesis by (cases d; cases e; cases "parse (the d)") auto
  qed
  have rest: "(download = Download (Some text) None \<and> parse text = Some stored
      \<longrightarrow> GET parse download localFile =
            \<lparr>http_status = 200, http_body = CatalogBody stored,
             cache_max_age = Some 3600, x_catalog_source = Some ''supabase-storage''\<rparr>)
   \<and> ((download = DownloadThrew \<or> download = Download dat (Some err) \<or> download = Download None None
        \<or> (download = Download (Some text) None \<and> parse text = None))
      \<longrightarrow> localFile = Some content \<longrightarrow> parse content = Some catalog
      \<longrightarrow> GET parse download localFile =
            \<lparr>http_status = 200, http_body = CatalogBody catalog,
             cache_max_age = Some 300, x_catalog_source = Some ''local-fallback''\<rparr>)
   \<and> (300 :: nat) < 3600
   \<and> ((download = DownloadThrew \<or> download = Download dat (Some err) \<or> download = Download None None
        \<or> (download = Download (Some text) None \<and> parse text = None))
      \<longrightarrow> (localFile = None \<or> (\<exists>c. localFile = Some c \<and> parse c = None))
      \<longrightarrow> GET parse download localFile =
            \<lparr>http_status = 500,
             http_body = ErrorBody ''Failed to load device catalog''
               ''Both Supabase Storage and local file failed. Please ensure the catalogs bucket exists in Supabase Storage or the local file is available.'',
             cache_max_age = None, x_catalog_source = None\<rparr>)"
    by (auto simp: GET_def serveFromStorage_def serveFromLocalFile_def split: option.splits)
  from rest split show ?thesis by blast
qed

theorem GET_storage_then_fallback_witness:
  "GET (\<lambda>s. if s = ''{}'' then Some (0::nat) else None) (Download None (Some ''not found'')) (Some ''{}'') =
     \<lparr>http_status = 200, http_body = CatalogBody 0,
      cache_max_age = Some 300, x_catalog_source = Some ''local-fallback''\<rparr>
   \<and> GET (\<lambda>s. if s = ''{}'' then Some (0::nat) else None) (Download (Some ''{}'') None) None =
     \<lparr>http_status = 200, http_body = CatalogBody 0,
      cache_max_age = Some 3600, x_catalog_source = Some ''supabase-storage''\<rparr>
   \<and> http_status (GET (\<lambda>s. if s = ''{}'' then Some (0::nat) else None) DownloadThrew None) = 500
   \<and> http_status (GET (\<lambda>s. if s = ''{}'' then Some (0::nat) else None)
        (Download (Some ''<html>'') None) (Some ''<html>'')) = 500"
  using GET_storage_then_fallback [of "Download None (Some ''not found'')" "''''" "\<lambda>s. if s = ''{}'' then Some (0::nat) else None"
      0 "Some ''{}''" None "''not found''" "''{}''" 0]
    GET_storage_then_fallback [of "Download (Some ''{}'') None" "''{}''" "\<lambda>s. if s = ''{}'' then Some (0::nat) else None"
      0 None None "''''" "''''" 0]
    GET_storage_then_fallback [of DownloadThrew "''''" "\<lambda>s. if s = ''{}'' then Some (0::nat) else None"
      0 None None "''''" "''''" 0]
    GET_storage_then_fallback [of "Download (Some ''<html>'') None" "''<html>''" "\<lambda>s. if s = ''{}'' then Some (0::nat) else None"
      0 "Some ''<html>''" None "''''" "''''" 0]
  by simp

section \<open>Properties of the brand resolution\<close>

text \<open>
  Claim C8, as stated: the brand of a device is the first defined of the nested brand
  name, the manufacturer name field and the flat brand name field. It fails on a device
  whose nested brand name is the empty string: the code goes on to the manufacturer name
  field.
\<close>

theorem brandNameOf_first_defined_counterexample:
  "brandNameOf ''Apple''
     \<lparr>device_id = 1, name = ''Phone X'', brand = Some '''', manufacturer_name = Some ''Acme'',
      brand_name = None, storage = None\<rparr> = ''Acme''
   \<and> brandNameOf_firstDefined ''Apple''
     \<lparr>device_id = 1, name = ''Phone X'', brand = Some '''', manufacturer_name = Some ''Acme'',
      brand_name = None, storage = None\<rparr> = ''''"
  by (simp add: brandNameOf_def brandNameOf_firstDefined_def js_or_def)

text \<open>
  Claim C8, amended. The brand of a device is the first defined and non-empty of the
  nested brand name, the manufacturer name field and the flat brand name field, and the
  name of the manufacturer of the current iteration when there is none. When no defined
  field is empty this is the first defined one.
\<close>

theorem brandNameOf_first_nonempty:
  "brandNameOf manufacturerName device =
     (case filter (\<lambda>s. s \<noteq> [])
             (List.map_filter (\<lambda>f. f) [brand device, manufacturer_name device, brand_name device]) of
        [] \<Rightarrow> manufacturerName
      | s # rest \<Rightarrow> s)
   \<and> (brand device \<noteq> Some [] \<and> manufacturer_name device \<noteq> Some [] \<and> brand_name device \<noteq> Some []
        \<longrightarrow> brandNameOf manufacturerName device = brandNameOf_firstDefined manufacturerName device)"
  by (auto simp: brandNameOf_def brandNameOf_firstDefined_def js_or_def List.map_filter_def
      split: option.splits)

theorem brandNameOf_first_nonempty_witness:
  "brandNameOf ''Apple''
     \<lparr>device_id = 1, name = ''Phone X'', brand = None, manufacturer_name = Some ''Acme'',
      brand_name = Some ''Other'', storage = None\<rparr> = ''Acme''
   \<and> brandNameOf ''Apple''
     \<lparr>device_id = 1, name = ''Phone X'', brand = None, manufacturer_name = Some ''Acme'',
      brand_name = Some ''Other'', storage = None\<rparr> =
     brandNameOf_firstDefined ''Apple''
     \<lparr>device_id = 1, name = ''Phone X'', brand = None, manufacturer_name = Some ''Acme'',
      brand_name = Some ''Other'', storage = None\<rparr>"
  using brandNameOf_first_nonempty [of "''Apple''"
     "\<lparr>device_id = 1, name = ''Phone X'', brand = None, manufacturer_name = Some ''Acme'',
      brand_name = Some ''Other'', storage = None\<rparr>"]
  by (auto simp add: List.map_filter_def)

section \<open>Properties of the publisher job\<close>

declare uploadLoop.simps [simp del]

lemma metadata_setModel: "metadata (setModel c b m me cat) = metadata cat"
  by (simp add: setModel_def split: option.splits)

lemma metadata_initCategory: "metadata (initCategory c cat) = metadata cat"
  by (simp add: initCategory_def)

lemma metadata_initBrand: "metadata (catalogOf (initBrand c b cat)) = metadata cat"
  by (simp add: initBrand_def split: option.splits)

lemma metadata_initModel: "metadata (catalogOf (initModel c b m cat)) = metadata cat"
  by (simp add: initModel_def metadata_setModel split: option.splits)

lemma metadata_addVariants: "metadata (catalogOf (addVariants c b m sv raw cat)) = metadata cat"
  by (simp add: addVariants_def metadata_setModel Let_def split: option.splits)

lemma metadata_addToCatalog: "metadata (catalogOf (addToCatalog c b m sv raw cat)) = metadata cat"
proof (cases "initBrand c b (initCategory c cat)")
  case (Normal cat1)
  then have m1: "metadata cat1 = metadata cat"
    using metadata_initBrand [of c b "initCategory c cat"] by (simp add: metadata_initCategory)
  show ?thesis
  proof (cases "initModel c b m cat1")
    case (Normal cat2)
    then have "metadata cat2 = metadata cat1"
      using metadata_initModel [of c b m cat1] by simp
    with m1 Normal \<open>initBrand c b (initCategory c cat) = Normal cat1\<close> show ?thesis
      by (simp add: addToCatalog_def metadata_addVariants)
  next
    case (TypeError cat2)
    then have "metadata cat2 = metadata cat1"
      using metadata_initModel [of c b m cat1] by simp
    with m1 TypeError \<open>initBrand c b (initCategory c cat) = Normal cat1\<close> show ?thesis
      by (simp add: addToCatalog_def)
  qed
next
  case (TypeError cat1)
  then have "metadata cat1 = metadata cat"
    using metadata_initBrand [of c b "initCategory c cat"] by (simp add: metadata_initCategory)
  with TypeError show ?thesis by (simp add: addToCatalog_def)
qed

lemma metadata_processDevice: "metadata (catalogOf (processDevice mfr d cat)) = metadata cat"
  by (simp add: processDevice_def Let_def metadata_addToCatalog)

lemma metadata_processDevices: "metadata (catalogOf (processDevices mfr ds cat)) = metadata cat"
proof (induction ds arbitrary: cat)
  case Nil
  show ?case by simp
next
  case (Cons d ds)
  show ?case
  proof (cases "processDevice mfr d cat")
    case (Normal cat')
    with Cons.IH [of cat'] metadata_processDevice [of mfr d cat] show ?thesis by simp
  next
    case (TypeError cat')
    with metadata_processDevice [of mfr d cat] show ?thesis by simp
  qed
qed

lemma processManufacturer_metadata:
  "metadata (fst (processManufacturer w i m st)) = metadata (fst st)"
proof -
  have "\<And>ds. metadata (catalogOf (processDevices (mfr_name m) ds (fst st))) = metadata (fst st)"
    by (rule metadata_processDevices)
  then show ?thesis
    by (auto simp: processManufacturer_def Let_def
        split: fetched.splits json_array.splits outcome.splits)
       (metis catalogOf.simps)+
qed

lemma processManufacturer_trace:
  "\<exists>new. snd (processManufacturer w i m st) = snd st @ new \<and> (\<forall>e\<in>set new. \<not> isUpload e)"
  by (auto simp: processManufacturer_def Let_def
      split: fetched.splits json_array.splits outcome.splits)

lemma processManufacturers_metadata:
  "metadata (fst (processManufacturers w i ms st)) = metadata (fst st)"
  by (induction ms arbitrary: i st) (simp_all add: processManufacturer_metadata)

lemma processManufacturers_trace:
  "\<exists>new. snd (processManufacturers w i ms st) = snd st @ new \<and> (\<forall>e\<in>set new. \<not> isUpload e)"
proof (induction ms arbitrary: i st)
  case Nil
  show ?case by simp
next
  case (Cons m ms)
  obtain new1 where n1: "snd (processManufacturer w i m st) = snd st @ new1"
      "\<forall>e\<in>set new1. \<not> isUpload e"
    using processManufacturer_trace by blast
  obtain new2 where n2:
      "snd (processManufacturers w (Suc i) ms (processManufacturer w i m st)) =
         snd (processManufacturer w i m st) @ new2"
      "\<forall>e\<in>set new2. \<not> isUpload e"
    using Cons.IH by blast
  from n1 n2 have "snd (processManufacturers w i (m # ms) st) = snd st @ (new1 @ new2)"
    by simp
  moreover from n1 n2 have "\<forall>e\<in>set (new1 @ new2). \<not> isUpload e" by auto
  ultimately show ?case by blast
qed

lemma uploadLoop_stop: "maxRetries < n \<Longrightarrow> uploadLoop up n e tr = (Inr e, tr)"
  by (subst uploadLoop.simps) simp

lemma uploadLoop_error:
  "n \<le> maxRetries \<Longrightarrow> up n = UploadError message \<Longrightarrow>
   uploadLoop up n e tr =
     uploadLoop up (Suc n) (Some message)
       (tr @ attemptEvents n @ [Warn (UploadAttemptFailed (n + 1) message)])"
  by (subst uploadLoop.simps) (simp add: attemptEvents_def Let_def)

lemma uploadLoop_ok:
  "n \<le> maxRetries \<Longrightarrow> up n = UploadOk \<Longrightarrow>
   uploadLoop up n e tr = (Inr None, tr @ attemptEvents n)"
  by (subst uploadLoop.simps) (simp add: attemptEvents_def Let_def)

lemma uploadLoop_threw:
  "n \<le> maxRetries \<Longrightarrow> up n = UploadThrew message \<Longrightarrow>
   uploadLoop up n e tr = (Inl message, tr @ attemptEvents n)"
  by (subst uploadLoop.simps) (simp add: attemptEvents_def Let_def)

lemma failedAttempts_step:
  "n < k \<Longrightarrow> failedAttempts msg n k =
     attemptEvents n @ [Warn (UploadAttemptFailed (n + 1) (msg n))] @ failedAttempts msg (Suc n) k"
  by (simp add: failedAttempts_def upt_conv_Cons)

lemma uploadLoop_failures:
  "k \<le> Suc maxRetries \<Longrightarrow> n \<le> k \<Longrightarrow> (\<forall>i. n \<le> i \<and> i < k \<longrightarrow> up i = UploadError (msg i)) \<Longrightarrow>
   uploadLoop up n e tr =
     uploadLoop up k (if n = k then e else Some (msg (k - 1))) (tr @ failedAttempts msg n k)"
proof (induction "k - n" arbitrary: n e tr)
  case 0
  then show ?case by (simp add: failedAttempts_def)
next
  case (Suc d)
  then have nk: "n < k" and nmax: "n \<le> maxRetries" by auto
  with Suc.prems have upn: "up n = UploadError (msg n)" by simp
  have "uploadLoop up n e tr =
          uploadLoop up (Suc n) (Some (msg n))
            (tr @ attemptEvents n @ [Warn (UploadAttemptFailed (n + 1) (msg n))])"
    using uploadLoop_error [of n up "msg n" e tr] nmax upn by simp
  also have "\<dots> = uploadLoop up k (if Suc n = k then Some (msg n) else Some (msg (k - 1)))
            ((tr @ attemptEvents n @ [Warn (UploadAttemptFailed (n + 1) (msg n))])
               @ failedAttempts msg (Suc n) k)"
    using Suc.hyps(1) [of "Suc n"] Suc.hyps(2) Suc.prems nk by auto
  finally show ?case
    using nk by (auto simp: failedAttempts_step)
qed

lemma uploadLoop_trace_append:
  "uploadLoop up n e tr = (fst (uploadLoop up n e []), tr @ snd (uploadLoop up n e []))"
proof (induction "Suc maxRetries - n" arbitrary: n e tr)
  case 0
  then show ?case by (simp add: uploadLoop_stop)
next
  case (Suc d)
  then have le: "n \<le> maxRetries" by simp
  show ?case
  proof (cases "up n")
    case UploadOk
    with le show ?thesis by (simp add: uploadLoop_ok)
  next
    case (UploadThrew message)
    with le show ?thesis by (simp add: uploadLoop_threw)
  next
    case (UploadError message)
    have d: "d = Suc maxRetries - Suc n" using Suc.hyps(2) by simp
    have a: "uploadLoop up n e tr =
        uploadLoop up (Suc n) (Some message)
          (tr @ attemptEvents n @ [Warn (UploadAttemptFailed (n + 1) message)])"
      using uploadLoop_error [of n up message e tr] le UploadError by simp
    have b: "uploadLoop up n e [] =
        uploadLoop up (Suc n) (Some message)
          (attemptEvents n @ [Warn (UploadAttemptFailed (n + 1) message)])"
      using uploadLoop_error [of n up message e "[]"] le UploadError by simp
    show ?thesis
      unfolding a b
      using Suc.hyps(1) [OF d, of "Some message"
          "tr @ attemptEvents n @ [Warn (UploadAttemptFailed (n + 1) message)]"]
        Suc.hyps(1) [OF d, of "Some message"
          "attemptEvents n @ [Warn (UploadAttemptFailed (n + 1) message)]"]
      by simp
  qed
qed

lemma uploadLoop_count:
  "length (filter isUpload (snd (uploadLoop up n e tr))) \<le>
     length (filter isUpload tr) + (Suc maxRetries - n)"
proof (induction "Suc maxRetries - n" arbitrary: n e tr)
  case 0
  then show ?case by (simp add: uploadLoop_stop)
next
  case (Suc d)
  then have le: "n \<le> maxRetries" by simp
  show ?case
  proof (cases "up n")
    case UploadOk
    with le show ?thesis by (simp add: uploadLoop_ok attemptEvents_def)
  next
    case (UploadThrew message)
    with le show ?thesis by (simp add: uploadLoop_threw attemptEvents_def)
  next
    case (UploadError message)
    have d: "d = Suc maxRetries - Suc n" using Suc.hyps(2) by simp
    have a: "uploadLoop up n e tr =
        uploadLoop up (Suc n) (Some message)
          (tr @ attemptEvents n @ [Warn (UploadAttemptFailed (n + 1) message)])"
      using uploadLoop_error [of n up message e tr] le UploadError by simp
    show ?thesis
      unfolding a
      using Suc.hyps(1) [OF d, of "Some message"
          "tr @ attemptEvents n @ [Warn (UploadAttemptFailed (n + 1) message)]"] le
      by (simp add: attemptEvents_def)
  qed
qed

lemma uploadLoop_upsert:
  "(\<forall>ev\<in>set tr. isUpload ev \<longrightarrow> ev = Upload ''catalogs'' ''deviceCatalog.json'' True) \<Longrightarrow>
   \<forall>ev\<in>set (snd (uploadLoop up n e tr)).
      isUpload ev \<longrightarrow> ev = Upload ''catalogs'' ''deviceCatalog.json'' True"
proof (induction "Suc maxRetries - n" arbitrary: n e tr)
  case 0
  then show ?case by (simp add: uploadLoop_stop)
next
  case (Suc d)
  then have le: "n \<le> maxRetries" by simp
  show ?case
  proof (cases "up n")
    case UploadOk
    with le Suc.prems show ?thesis by (auto simp: uploadLoop_ok attemptEvents_def)
  next
    case (UploadThrew message)
    with le Suc.prems show ?thesis by (auto simp: uploadLoop_threw attemptEvents_def)
  next
    case (UploadError message)
    have d: "d = Suc maxRetries - Suc n" using Suc.hyps(2) by simp
    have a: "uploadLoop up n e tr =
        uploadLoop up (Suc n) (Some message)
          (tr @ attemptEvents n @ [Warn (UploadAttemptFailed (n + 1) message)])"
      using uploadLoop_error [of n up message e tr] le UploadError by simp
    have "\<forall>ev\<in>set (tr @ attemptEvents n @ [Warn (UploadAttemptFailed (n + 1) message)]).
            isUpload ev \<longrightarrow> ev = Upload ''catalogs'' ''deviceCatalog.json'' True"
      using Suc.prems by (auto simp: attemptEvents_def)
    then show ?thesis
      unfolding a by (rule Suc.hyps(1) [OF d])
  qed
qed


lemma serve_reaches_upload:
  assumes "published (serve w) \<noteq> None"
  shows "\<exists>ms pre. manufacturersResponse w = Fetched (Array ms) \<and> ms \<noteq> []
           \<and> (\<forall>ev\<in>set pre. \<not> isUpload ev)
           \<and> published (serve w) =
               Some (fst (processManufacturers w 0 (take maxManufacturers ms)
                            (initialCatalog (now w), [FetchManufacturers])))
           \<and> trace (serve w) = pre @ snd (uploadLoop (uploadResponse w) 0 None [])
           \<and> response (serve w) =
               (case fst (uploadLoop (uploadResponse w) 0 None []) of
                  Inl message \<Rightarrow> Failure message
                | Inr (Some message) \<Rightarrow>
                    Failure (''Failed to upload catalog to Storage after 3 retries: '' @ message)
                | Inr None \<Rightarrow> Success (now w))"
proof -
  from assms obtain ms where ms: "manufacturersResponse w = Fetched (Array ms)" "ms \<noteq> []"
    and env: "js_or (INTERNAL_API_SECRET w) [] \<noteq> []"
      "(case INTERNAL_API_BASE_URL w of Some url \<Rightarrow> url
        | None \<Rightarrow> (case SITE_URL w of Some url \<Rightarrow> url | None \<Rightarrow> [])) \<noteq> []"
      "createClientError w = None"
    by (auto simp: serve_def failed_def split: if_splits option.splits fetched.splits json_array.splits)
  define st where "st = processManufacturers w 0 (take maxManufacturers ms)
                            (initialCatalog (now w), [FetchManufacturers])"
  obtain new where new: "snd st = [FetchManufacturers] @ new" "\<forall>ev\<in>set new. \<not> isUpload ev"
    unfolding st_def
    using processManufacturers_trace [of w 0 "take maxManufacturers ms"
        "(initialCatalog (now w), [FetchManufacturers])"] by auto
  have meta: "lastUpdated (metadata (fst st)) = now w"
    unfolding st_def by (simp add: processManufacturers_metadata initialCatalog_def)
  have up: "uploadLoop (uploadResponse w) 0 None (snd st) =
              (fst (uploadLoop (uploadResponse w) 0 None []),
               snd st @ snd (uploadLoop (uploadResponse w) 0 None []))"
    by (rule uploadLoop_trace_append)
  have "published (serve w) = Some (fst st)"
    using ms env by (simp add: serve_def failed_def Let_def st_def split: sum.splits option.splits)
  moreover have "trace (serve w) = snd st @ snd (uploadLoop (uploadResponse w) 0 None [])"
    using ms env up
    by (simp add: serve_def failed_def Let_def st_def [symmetric] split: sum.splits option.splits)
  moreover have "response (serve w) =
               (case fst (uploadLoop (uploadResponse w) 0 None []) of
                  Inl message \<Rightarrow> Failure message
                | Inr (Some message) \<Rightarrow>
                    Failure (''Failed to upload catalog to Storage after 3 retries: '' @ message)
                | Inr None \<Rightarrow> Success (now w))"
    using ms env up meta
    by (simp add: serve_def failed_def Let_def st_def [symmetric] split: sum.splits option.splits)
  moreover have "\<forall>ev\<in>set (snd st). \<not> isUpload ev"
    using new by auto
  ultimately show ?thesis
    using ms unfolding st_def by blast
qed

lemma uploadLoop_first_other:
  fixes up :: "nat \<Rightarrow> upload_result"
  assumes none: "\<not> (\<forall>i\<le>3. \<exists>m. up i = UploadError m)"
  shows "\<exists>k\<le>3. (\<forall>i<k. \<exists>m. up i = UploadError m) \<and> (up k = UploadOk \<or> (\<exists>m. up k = UploadThrew m))"
proof -
  let ?P = "\<lambda>i. i \<le> (3::nat) \<and> \<not> (\<exists>m. up i = UploadError m)"
  from none obtain j where j: "?P j" by blast
  define k where "k = (LEAST i. ?P i)"
  have Pk: "?P k" unfolding k_def using j by (rule LeastI)
  have least: "\<not> ?P i" if "i < k" for i
    using that not_less_Least unfolding k_def by blast
  have before: "\<forall>i<k. \<exists>m. up i = UploadError m"
  proof (intro allI impI)
    fix i assume "i < k"
    with Pk have "i \<le> 3" by simp
    with least [OF \<open>i < k\<close>] show "\<exists>m. up i = UploadError m" by blast
  qed
  from Pk have "up k = UploadOk \<or> (\<exists>m. up k = UploadThrew m)"
    by (cases "up k") auto
  with Pk before show ?thesis by blast
qed

text \<open>
  Claim C3. In a run that reaches the upload step, the trace is what came before,
  without any upload, followed by the events of the upload loop. There are at most 4
  uploads (one attempt and at most 3 retries), each of them to \<open>deviceCatalog.json\<close> in
  the bucket \<open>catalogs\<close> with \<open>upsert\<close>. If attempt \<open>k \<le> 3\<close> succeeds after \<open>k\<close>
  attempts that returned an error, the response is the success response, and the events
  are those \<open>k\<close> failed attempts and attempt \<open>k\<close>, every retry after a sleep of 1000
  ms. If all 4 attempts return an error, the response is the failure response with
  status 500 whose message ends with the message of the last error, after 4 such
  attempts. If attempt \<open>k \<le> 3\<close> throws after \<open>k\<close> attempts that returned an error, no
  further attempt is made and the response is the failure response with status 500 and
  the message of the thrown error. So the status is 200 exactly when some attempt
  \<open>j \<le> 3\<close> succeeds after \<open>j\<close> error results, and 500 otherwise.
\<close>

theorem upload_retry:
  assumes "published (serve w) \<noteq> None"
  shows "(\<exists>pre. trace (serve w) = pre @ snd (uploadLoop (uploadResponse w) 0 None [])
              \<and> (\<forall>ev\<in>set pre. \<not> isUpload ev))
    \<and> length (filter isUpload (trace (serve w))) \<le> 4
    \<and> (\<forall>ev\<in>set (trace (serve w)).
          isUpload ev \<longrightarrow> ev = Upload ''catalogs'' ''deviceCatalog.json'' True)
    \<and> (k \<le> 3 \<and> (\<forall>i<k. uploadResponse w i = UploadError (msg i)) \<and> uploadResponse w k = UploadOk
        \<longrightarrow> response (serve w) = Success (now w)
          \<and> snd (uploadLoop (uploadResponse w) 0 None []) = failedAttempts msg 0 k @ attemptEvents k)
    \<and> ((\<forall>i\<le>3. uploadResponse w i = UploadError (msg i))
        \<longrightarrow> response (serve w) =
              Failure (''Failed to upload catalog to Storage after 3 retries: '' @ msg 3)
          \<and> status (response (serve w)) = 500
          \<and> snd (uploadLoop (uploadResponse w) 0 None []) = failedAttempts msg 0 4)
    \<and> (k \<le> 3 \<and> (\<forall>i<k. uploadResponse w i = UploadError (msg i))
          \<and> uploadResponse w k = UploadThrew message
        \<longrightarrow> response (serve w) = Failure message
          \<and> status (response (serve w)) = 500
          \<and> snd (uploadLoop (uploadResponse w) 0 None []) = failedAttempts msg 0 k @ attemptEvents k)
    \<and> (status (response (serve w)) = 200 \<longleftrightarrow>
          (\<exists>j\<le>3. uploadResponse w j = UploadOk \<and> (\<forall>i<j. \<exists>m. uploadResponse w i = UploadError m)))
    \<and> (status (response (serve w)) = 500 \<longleftrightarrow>
          \<not> (\<exists>j\<le>3. uploadResponse w j = UploadOk \<and> (\<forall>i<j. \<exists>m. uploadResponse w i = UploadError m)))"
proof -
  let ?up = "uploadResponse w"
  let ?loop = "uploadLoop ?up 0 None []"
  from serve_reaches_upload [OF assms] obtain pre where
    pre: "\<forall>ev\<in>set pre. \<not> isUpload ev" and
    tr: "trace (serve w) = pre @ snd ?loop" and
    resp: "response (serve w) =
               (case fst ?loop of
                  Inl message \<Rightarrow> Failure message
                | Inr (Some message) \<Rightarrow>
                    Failure (''Failed to upload catalog to Storage after 3 retries: '' @ message)
                | Inr None \<Rightarrow> Success (now w))"
    by blast
  have nopre: "filter isUpload pre = []"
    using pre by (simp add: filter_empty_conv)
  have A: "\<exists>pre. trace (serve w) = pre @ snd ?loop \<and> (\<forall>ev\<in>set pre. \<not> isUpload ev)"
    using pre tr by blast
  have B: "length (filter isUpload (trace (serve w))) \<le> 4"
    using uploadLoop_count [of ?up 0 None "[]"] nopre tr by (simp add: maxRetries_def)
  have C: "\<forall>ev\<in>set (trace (serve w)).
          isUpload ev \<longrightarrow> ev = Upload ''catalogs'' ''deviceCatalog.json'' True"
    using uploadLoop_upsert [of "[]" ?up 0 None] pre tr by auto
  have prefix: "?loop = uploadLoop ?up j (if 0 = j then None else Some (f (j - 1)))
                    ([] @ failedAttempts f 0 j)"
    if "j \<le> 4" "\<forall>i<j. ?up i = UploadError (f i)" for j f
    using uploadLoop_failures [of j 0 ?up f None "[]"] that by (simp add: maxRetries_def)
  have D: "response (serve w) = Success (now w)
          \<and> snd ?loop = failedAttempts f 0 j @ attemptEvents j"
    if j: "j \<le> 3" and errs: "\<forall>i<j. ?up i = UploadError (f i)" and ok: "?up j = UploadOk" for j f
  proof -
    have "?loop = uploadLoop ?up j (if 0 = j then None else Some (f (j - 1)))
                    ([] @ failedAttempts f 0 j)"
      using prefix [of j f] j errs by simp
    also have "\<dots> = (Inr None, failedAttempts f 0 j @ attemptEvents j)"
      using uploadLoop_ok [of j ?up] j ok by (simp add: maxRetries_def)
    finally show ?thesis using resp by simp
  qed
  have E: "response (serve w) =
              Failure (''Failed to upload catalog to Storage after 3 retries: '' @ f 3)
          \<and> status (response (serve w)) = 500
          \<and> snd ?loop = failedAttempts f 0 4"
    if errs: "\<forall>i\<le>3. ?up i = UploadError (f i)" for f
  proof -
    have "?loop = uploadLoop ?up 4 (if (0::nat) = 4 then None else Some (f (4 - 1)))
                    ([] @ failedAttempts f 0 4)"
      using prefix [of 4 f] errs by simp
    also have "\<dots> = (Inr (Some (f 3)), failedAttempts f 0 4)"
      by (simp add: uploadLoop_stop maxRetries_def)
    finally show ?thesis using resp by simp
  qed
  have F: "response (serve w) = Failure message'
          \<and> status (response (serve w)) = 500
          \<and> snd ?loop = failedAttempts f 0 j @ attemptEvents j"
    if j: "j \<le> 3" and errs: "\<forall>i<j. ?up i = UploadError (f i)"
      and threw: "?up j = UploadThrew message'" for j f message'
  proof -
    have "?loop = uploadLoop ?up j (if 0 = j then None else Some (f (j - 1)))
                    ([] @ failedAttempts f 0 j)"
      using prefix [of j f] j errs by simp
    also have "\<dots> = (Inl message', failedAttempts f 0 j @ attemptEvents j)"
      using uploadLoop_threw [of j ?up message'] j threw by (simp add: maxRetries_def)
    finally show ?thesis using resp by simp
  qed
  define f where "f = (\<lambda>i. case ?up i of UploadError m \<Rightarrow> m | UploadOk \<Rightarrow> [] | UploadThrew m \<Rightarrow> [])"
  have f: "?up i = UploadError (f i)" if "\<exists>m. ?up i = UploadError m" for i
    using that by (auto simp: f_def)
  let ?good = "\<exists>j\<le>3. ?up j = UploadOk \<and> (\<forall>i<j. \<exists>m. ?up i = UploadError m)"
  have G1: "status (response (serve w)) = 200" if ?good
  proof -
    from that obtain j where j: "j \<le> 3" "?up j = UploadOk" "\<forall>i<j. \<exists>m. ?up i = UploadError m"
      by blast
    from j(3) f have "\<forall>i<j. ?up i = UploadError (f i)" by blast
    from D [OF j(1) this j(2)] show ?thesis by simp
  qed
  have G2: "status (response (serve w)) = 500" if bad: "\<not> ?good"
  proof (cases "\<forall>i\<le>3. \<exists>m. ?up i = UploadError m")
    case True
    with f have "\<forall>i\<le>3. ?up i = UploadError (f i)" by blast
    from E [OF this] show ?thesis by simp
  next
    case False
    from uploadLoop_first_other [OF False] obtain j where
      j: "j \<le> 3" "\<forall>i<j. \<exists>m. ?up i = UploadError m"
         "?up j = UploadOk \<or> (\<exists>m. ?up j = UploadThrew m)"
      by blast
    from j bad obtain m where m: "?up j = UploadThrew m" by blast
    from j(2) f have "\<forall>i<j. ?up i = UploadError (f i)" by blast
    from F [OF j(1) this m] show ?thesis by simp
  qed
  have G: "status (response (serve w)) = 200 \<longleftrightarrow> ?good"
    using G1 G2 by fastforce
  have H: "status (response (serve w)) = 500 \<longleftrightarrow> \<not> ?good"
    using G1 G2 by fastforce
  from A B C D [of k msg] E [of msg] F [of k msg message] G H show ?thesis by blast
qed

theorem upload_retry_witness:
  "published (serve (retryWorld (\<lambda>n. if n < 2 then UploadError ''busy'' else UploadOk))) \<noteq> None
   \<and> response (serve (retryWorld (\<lambda>n. if n < 2 then UploadError ''busy'' else UploadOk))) =
       Success ''2025-01-01T00:00:00.000Z''
   \<and> published (serve (retryWorld (\<lambda>n. UploadError (if n = 3 then ''last'' else ''busy'')))) \<noteq> None
   \<and> response (serve (retryWorld (\<lambda>n. UploadError (if n = 3 then ''last'' else ''busy'')))) =
       Failure ''Failed to upload catalog to Storage after 3 retries: last''
   \<and> published (serve (retryWorld (\<lambda>n. if n < 3 then UploadError ''busy'' else UploadThrew ''network''))) \<noteq> None
   \<and> response (serve (retryWorld (\<lambda>n. if n < 3 then UploadError ''busy'' else UploadThrew ''network''))) =
       Failure ''network''"
proof -
  let ?w1 = "retryWorld (\<lambda>n. if n < 2 then UploadError ''busy'' else UploadOk)"
  let ?w2 = "retryWorld (\<lambda>n. UploadError (if n = 3 then ''last'' else ''busy''))"
  let ?w3 = "retryWorld (\<lambda>n. if n < 3 then UploadError ''busy'' else UploadThrew ''network'')"
  have p1: "published (serve ?w1) \<noteq> None"
    by (simp add: serve_def retryWorld_def js_or_def failed_def Let_def
        split: sum.splits option.splits)
  have p2: "published (serve ?w2) \<noteq> None"
    by (simp add: serve_def retryWorld_def js_or_def failed_def Let_def
        split: sum.splits option.splits)
  have p3: "published (serve ?w3) \<noteq> None"
    by (simp add: serve_def retryWorld_def js_or_def failed_def Let_def
        split: sum.splits option.splits)
  have r1: "response (serve ?w1) = Success ''2025-01-01T00:00:00.000Z''"
    using upload_retry [OF p1, of 2 "\<lambda>i. ''busy''" "''''"] by (simp add: retryWorld_def)
  have r2: "response (serve ?w2) =
       Failure ''Failed to upload catalog to Storage after 3 retries: last''"
    using upload_retry [OF p2, of 0 "\<lambda>n. if n = 3 then ''last'' else ''busy''" "''''"]
    by (simp add: retryWorld_def)
  have r3: "response (serve ?w3) = Failure ''network''"
    using upload_retry [OF p3, of 3 "\<lambda>i. ''busy''" "''network''"] by (simp add: retryWorld_def)
  from p1 r1 p2 r2 p3 r3 show ?thesis by blast
qed

section \<open>Properties of the catalog builder\<close>

lemma lookupBrand_setModel:
  "lookupBrand c' b' (setModel c b m me cat) =
     (case lookupBrand c b cat of
        None \<Rightarrow> lookupBrand c' b' cat
      | Some be \<Rightarrow> if c' = c \<and> b' = b then Some (be\<lparr>models := (models be)(m \<mapsto> me)\<rparr>)
                   else lookupBrand c' b' cat)"
  by (auto simp: lookupBrand_def setModel_def split: option.splits)

lemma lookupModel_setModel:
  "lookupModel c' b' m' (setModel c b m me cat) =
     (if lookupBrand c b cat \<noteq> None \<and> c' = c \<and> b' = b \<and> m' = m then Some me
      else lookupModel c' b' m' cat)"
  by (auto simp: lookupModel_def lookupBrand_setModel split: option.splits)

lemma lookupBrand_initCategory: "lookupBrand c' b' (initCategory c cat) = lookupBrand c' b' cat"
  by (auto simp: lookupBrand_def initCategory_def truthyProperty_def split: option.splits)

lemma lookupModel_initCategory: "lookupModel c' b' m' (initCategory c cat) = lookupModel c' b' m' cat"
  by (simp add: lookupModel_def lookupBrand_initCategory)

lemma lookupModel_initBrand:
  "lookupModel c' b' m' (catalogOf (initBrand c b cat)) = lookupModel c' b' m' cat"
  by (auto simp: lookupModel_def lookupBrand_def initBrand_def truthyProperty_def
      split: option.splits)

lemma initBrand_Normal_lookup:
  "initBrand c b cat = Normal cat' \<Longrightarrow>
   lookupBrand c b cat' \<noteq> None \<or> (b \<in> set objectPrototypeKeys \<and> cat' = cat)"
  by (auto simp: lookupBrand_def initBrand_def truthyProperty_def split: option.splits if_splits)

lemma initModel_cases:
  "initModel c b m cat = TypeError cat' \<Longrightarrow> cat' = cat \<and> lookupBrand c b cat = None"
  "initModel c b m cat = Normal cat' \<Longrightarrow>
     lookupBrand c b cat \<noteq> None \<and>
     ((lookupModel c b m cat \<noteq> None \<and> cat' = cat) \<or>
      (lookupModel c b m cat = None \<and> m \<in> set objectPrototypeKeys \<and> cat' = cat) \<or>
      (lookupModel c b m cat = None \<and> m \<notin> set objectPrototypeKeys \<and>
       cat' = setModel c b m \<lparr>variants = []\<rparr> cat))"
  by (auto simp: initModel_def lookupModel_def truthyProperty_def split: option.splits if_splits)

lemma lookupModel_TypeError:
  assumes "addToCatalog c b m sv raw cat = TypeError cat'"
  shows "lookupModel c' b' m' cat' = lookupModel c' b' m' cat"
proof (cases "initBrand c b (initCategory c cat)")
  case (TypeError cat1)
  with assms have "cat' = cat1" by (simp add: addToCatalog_def)
  with TypeError lookupModel_initBrand [of c' b' m' c b "initCategory c cat"]
  show ?thesis by (simp add: lookupModel_initCategory)
next
  case (Normal cat1)
  then have l1: "lookupModel c' b' m' cat1 = lookupModel c' b' m' cat" for c' b' m'
    using lookupModel_initBrand [of c' b' m' c b "initCategory c cat"]
    by (simp add: lookupModel_initCategory)
  show ?thesis
  proof (cases "initModel c b m cat1")
    case (TypeError cat2)
    with assms Normal have "cat' = cat2" by (simp add: addToCatalog_def)
    with initModel_cases(1) [OF TypeError] l1 show ?thesis by simp
  next
    case Normal2: (Normal cat2)
    with assms Normal have av: "addVariants c b m sv raw cat2 = TypeError cat'"
      by (simp add: addToCatalog_def)
    then have "cat' = cat2 \<and> lookupModel c b m cat2 = None"
      by (auto simp: addVariants_def Let_def split: if_splits option.splits)
    moreover from this initModel_cases(2) [OF Normal2] have "cat2 = cat1"
      by (auto simp: lookupModel_setModel)
    ultimately show ?thesis using l1 by simp
  qed
qed

lemma trim_eq_Nil_iff: "trim s = [] \<longleftrightarrow> (\<forall>c\<in>set s. isWhiteSpace c)"
proof -
  have "trim s = [] \<longleftrightarrow> (\<forall>c\<in>set (dropWhile isWhiteSpace s). isWhiteSpace c)"
    by (simp add: trim_def dropWhile_eq_Nil_conv)
  also have "\<dots> \<longleftrightarrow> dropWhile isWhiteSpace s = []"
    using hd_dropWhile [of isWhiteSpace s]
    by (cases "dropWhile isWhiteSpace s") (auto dest: set_dropWhileD)
  also have "\<dots> \<longleftrightarrow> (\<forall>c\<in>set s. isWhiteSpace c)"
    by (simp add: dropWhile_eq_Nil_conv)
  finally show ?thesis .
qed

lemma prototypeKeys_visible:
  "list_all (\<lambda>k. list_ex (\<lambda>c. \<not> isWhiteSpace c) k) objectPrototypeKeys"
  by code_simp

lemma prototypeKey_variantName:
  assumes "m \<in> set objectPrototypeKeys"
  shows "trim (m @ rest) \<noteq> []"
proof -
  from assms prototypeKeys_visible obtain c where "c \<in> set m" "\<not> isWhiteSpace c"
    by (auto simp: list_all_iff list_ex_iff)
  then show ?thesis by (auto simp: trim_eq_Nil_iff)
qed

lemma mergeVariants_single:
  "mergeVariants xs [v] = (if v \<in> set xs then xs else xs @ [v])"
  by simp

lemma addVariants_Normal:
  assumes "addVariants c b m sv raw cat = Normal cat'"
    and "lookupModel c b m cat = Some me"
  shows "lookupModel c' b' m' cat' =
           (if c' = c \<and> b' = b \<and> m' = m
            then Some (me\<lparr>variants := mergeVariants (variants me) (tupleVariants m sv raw)\<rparr>)
            else lookupModel c' b' m' cat)"
proof -
  have br: "lookupBrand c b cat \<noteq> None"
    using assms(2) by (auto simp: lookupModel_def split: option.splits)
  show ?thesis
  proof (cases "length sv > 0")
    case True
    with assms have "cat' = setModel c b m (me\<lparr>variants := mergeVariants (variants me) sv\<rparr>) cat"
      by (simp add: addVariants_def)
    with True br show ?thesis by (simp add: lookupModel_setModel tupleVariants_def)
  next
    case False
    show ?thesis
    proof (cases "trim (m @ '' '' @ js_or raw []) = []")
      case True
      with False assms have "cat' = cat" by (simp add: addVariants_def Let_def)
      with True False assms(2) show ?thesis by (simp add: tupleVariants_def)
    next
      case nonempty: False
      show ?thesis
      proof (cases "trim (m @ '' '' @ js_or raw []) \<in> set (variants me)")
        case True
        with False nonempty assms have "cat' = cat" by (simp add: addVariants_def Let_def)
        with True False nonempty assms(2) show ?thesis by (simp add: tupleVariants_def)
      next
        case notin: False
        with False nonempty assms
        have "cat' = setModel c b m
                (me\<lparr>variants := variants me @ [trim (m @ '' '' @ js_or raw [])]\<rparr>) cat"
          by (simp add: addVariants_def Let_def)
        with notin False nonempty br show ?thesis
          by (simp add: lookupModel_setModel tupleVariants_def)
      qed
    qed
  qed
qed

lemma addVariants_Normal_absent:
  assumes "addVariants c b m sv raw cat = Normal cat'"
    and "lookupModel c b m cat = None"
  shows "cat' = cat \<and> tupleVariants m sv raw = []"
  using assms by (auto simp: addVariants_def tupleVariants_def Let_def split: if_splits)

lemma addToCatalog_Normal:
  assumes "addToCatalog c b m sv raw cat = Normal cat'"
  shows "lookupModel c b m cat' \<noteq> None"
    and "variantsAt c' b' m' cat' =
           (if c' = c \<and> b' = b \<and> m' = m
            then mergeVariants (variantsAt c b m cat) (tupleVariants m sv raw)
            else variantsAt c' b' m' cat)"
    and "c' \<noteq> c \<or> b' \<noteq> b \<or> m' \<noteq> m \<Longrightarrow> lookupModel c' b' m' cat' = lookupModel c' b' m' cat"
proof -
  from assms obtain cat1 cat2 where
    s1: "initBrand c b (initCategory c cat) = Normal cat1" and
    s2: "initModel c b m cat1 = Normal cat2" and
    s3: "addVariants c b m sv raw cat2 = Normal cat'"
    by (auto simp: addToCatalog_def split: outcome.splits)
  have l1: "lookupModel c' b' m' cat1 = lookupModel c' b' m' cat" for c' b' m'
    using s1 lookupModel_initBrand [of c' b' m' c b "initCategory c cat"]
    by (simp add: lookupModel_initCategory)
  have br: "lookupBrand c b cat1 \<noteq> None"
    using initModel_cases(2) [OF s2] by simp
  have proto: "trim (m @ '' '' @ js_or raw []) \<noteq> []" if "m \<in> set objectPrototypeKeys"
    using prototypeKey_variantName [OF that] .
  consider (present) me where "lookupModel c b m cat1 = Some me" "cat2 = cat1"
    | (inherited) "lookupModel c b m cat1 = None" "m \<in> set objectPrototypeKeys" "cat2 = cat1"
    | (created) "lookupModel c b m cat1 = None" "cat2 = setModel c b m \<lparr>variants = []\<rparr> cat1"
    using initModel_cases(2) [OF s2] by auto
  then have "lookupModel c b m cat' \<noteq> None
     \<and> variantsAt c' b' m' cat' =
           (if c' = c \<and> b' = b \<and> m' = m
            then mergeVariants (variantsAt c b m cat) (tupleVariants m sv raw)
            else variantsAt c' b' m' cat)
     \<and> (c' \<noteq> c \<or> b' \<noteq> b \<or> m' \<noteq> m \<longrightarrow> lookupModel c' b' m' cat' = lookupModel c' b' m' cat)"
  proof cases
    case present
    from addVariants_Normal [OF s3 [unfolded present(2)] present(1)] present(1) l1
    show ?thesis by (auto simp: variantsAt_def)
  next
    case inherited
    from addVariants_Normal_absent [OF s3 [unfolded inherited(3)] inherited(1)]
    have "tupleVariants m sv raw = []" by simp
    with proto [OF inherited(2)] have "length sv > 0"
      by (auto simp: tupleVariants_def split: if_splits)
    with s3 inherited show ?thesis by (simp add: addVariants_def)
  next
    case created
    have look: "lookupModel c b m cat2 = Some \<lparr>variants = []\<rparr>"
      using created br by (simp add: lookupModel_setModel)
    have fr: "lookupModel c' b' m' cat2 =
                (if c' = c \<and> b' = b \<and> m' = m then Some \<lparr>variants = []\<rparr>
                 else lookupModel c' b' m' cat)" for c' b' m'
      using created br l1 by (simp add: lookupModel_setModel)
    from addVariants_Normal [OF s3 look] fr created(1) l1
    show ?thesis by (auto simp: variantsAt_def)
  qed
  then show "lookupModel c b m cat' \<noteq> None"
    and "variantsAt c' b' m' cat' =
           (if c' = c \<and> b' = b \<and> m' = m
            then mergeVariants (variantsAt c b m cat) (tupleVariants m sv raw)
            else variantsAt c' b' m' cat)"
    and "c' \<noteq> c \<or> b' \<noteq> b \<or> m' \<noteq> m \<Longrightarrow> lookupModel c' b' m' cat' = lookupModel c' b' m' cat"
    by auto
qed

subsection \<open>mergeVariants\<close>

lemma set_mergeVariants: "set (mergeVariants xs ys) = set xs \<union> set ys"
  by (induction ys arbitrary: xs) auto

lemma distinct_mergeVariants: "distinct xs \<Longrightarrow> distinct (mergeVariants xs ys)"
  by (induction ys arbitrary: xs) auto

lemma mergeVariants_append:
  "mergeVariants xs (ys @ zs) = mergeVariants (mergeVariants xs ys) zs"
  by (induction ys arbitrary: xs) auto

lemma mergeVariants_prefix: "prefix xs (mergeVariants xs ys)"
proof (induction ys arbitrary: xs)
  case Nil
  show ?case by simp
next
  case (Cons y ys)
  have "prefix xs (if y \<in> set xs then xs else xs @ [y])" by simp
  also have "prefix \<dots> (mergeVariants (if y \<in> set xs then xs else xs @ [y]) ys)"
    by (rule Cons.IH)
  finally show ?case by simp
qed

lemma mergeVariants_nonempty: "ys \<noteq> [] \<Longrightarrow> mergeVariants xs ys \<noteq> []"
  using set_mergeVariants [of xs ys] by (cases ys) auto

lemma mergeVariants_present: "set ys \<subseteq> set xs \<Longrightarrow> mergeVariants xs ys = xs"
  by (induction ys arbitrary: xs) auto

lemma remdups_skip_later: "v \<in> set bs \<Longrightarrow> remdups (as @ v # bs) = remdups (as @ bs)"
  by (induction as) auto

lemma firstSeen_skip_seen: "v \<in> set xs \<Longrightarrow> firstSeen (xs @ v # vs) = firstSeen (xs @ vs)"
  by (simp add: firstSeen_def remdups_skip_later)

lemma mergeVariants_firstSeen:
  "distinct xs \<Longrightarrow> mergeVariants xs ys = firstSeen (xs @ ys)"
proof (induction ys arbitrary: xs)
  case Nil
  then show ?case by (simp add: firstSeen_def distinct_remdups_id)
next
  case (Cons y ys)
  show ?case
  proof (cases "y \<in> set xs")
    case True
    with Cons show ?thesis by (simp add: firstSeen_skip_seen)
  next
    case False
    with Cons.prems have "distinct (xs @ [y])" by simp
    from Cons.IH [OF this] False show ?thesis by simp
  qed
qed

subsection \<open>One device\<close>

lemma processDevice_addToCatalog:
  "processDevice mfr d cat =
     (case deviceKey mfr d of
        (c, b, m) \<Rightarrow> addToCatalog c b m (extractStorageVariants (storage d)) (storage d) cat)"
  by (simp add: processDevice_def deviceKey_def Let_def)

lemma processDevice_TypeError:
  assumes "processDevice mfr d cat = TypeError cat'"
  shows "lookupModel c b m cat' = lookupModel c b m cat"
  using assms lookupModel_TypeError
  by (auto simp: processDevice_addToCatalog split: prod.splits)

lemma processDevice_TypeError_variants:
  assumes "processDevice mfr d cat = TypeError cat'"
  shows "variantsOf k cat' = variantsOf k cat"
  using processDevice_TypeError [OF assms]
  by (simp add: variantsOf_def variantsAt_def split: prod.splits)

lemma processDevice_Normal:
  assumes "processDevice mfr d cat = Normal cat'"
  shows "variantsOf k cat' =
           (if k = deviceKey mfr d then mergeVariants (variantsOf k cat) (deviceVariants mfr d)
            else variantsOf k cat)"
proof -
  obtain c b m where key: "deviceKey mfr d = (c, b, m)" by (cases "deviceKey mfr d")
  obtain c' b' m' where k: "k = (c', b', m')" by (cases k)
  have m: "m = extractModelName (deviceNameOf d) (brandNameOf mfr d)"
    using key by (auto simp: deviceKey_def)
  from assms key have "addToCatalog c b m (extractStorageVariants (storage d)) (storage d) cat = Normal cat'"
    by (simp add: processDevice_addToCatalog)
  from addToCatalog_Normal(2) [OF this, of c' b' m'] key k m show ?thesis
    by (auto simp: variantsOf_def deviceVariants_def)
qed

lemma processDevice_Normal_lookup:
  assumes "processDevice mfr d cat = Normal cat'"
  shows "(case k of (c, b, m) \<Rightarrow> lookupModel c b m cat') \<noteq> None \<longleftrightarrow>
         k = deviceKey mfr d \<or> (case k of (c, b, m) \<Rightarrow> lookupModel c b m cat) \<noteq> None"
proof -
  obtain c b m where key: "deviceKey mfr d = (c, b, m)" by (cases "deviceKey mfr d")
  obtain c' b' m' where k: "k = (c', b', m')" by (cases k)
  from assms key have a: "addToCatalog c b m (extractStorageVariants (storage d)) (storage d) cat = Normal cat'"
    by (simp add: processDevice_addToCatalog)
  show ?thesis
  proof (cases "k = (c, b, m)")
    case True
    with addToCatalog_Normal(1) [OF a] key show ?thesis by simp
  next
    case False
    with k have "c' \<noteq> c \<or> b' \<noteq> b \<or> m' \<noteq> m" by simp
    from addToCatalog_Normal(3) [OF a this] False key k show ?thesis by auto
  qed
qed

lemma processDevice_distinct:
  assumes "variantsDistinct cat"
  shows "variantsDistinct (catalogOf (processDevice mfr d cat))"
proof (cases "processDevice mfr d cat")
  case (Normal cat')
  have dk: "distinct (variantsOf k cat')" for k
    using processDevice_Normal [OF Normal, of k] assms
    by (auto simp: variantsDistinct_def variantsOf_def distinct_mergeVariants split: prod.splits)
  have "distinct (variantsAt c b m cat')" for c b m
    using dk [of "(c, b, m)"] by (simp add: variantsOf_def)
  with Normal show ?thesis by (simp add: variantsDistinct_def)
next
  case (TypeError cat')
  have "variantsAt c b m cat' = variantsAt c b m cat" for c b m
    using processDevice_TypeError [OF TypeError] by (simp add: variantsAt_def)
  with TypeError assms show ?thesis by (simp add: variantsDistinct_def)
qed

subsection \<open>A list of devices\<close>

lemma processDevices_distinct:
  "variantsDistinct cat \<Longrightarrow> variantsDistinct (catalogOf (processDevices mfr ds cat))"
proof (induction ds arbitrary: cat)
  case Nil
  then show ?case by simp
next
  case (Cons d ds)
  from processDevice_distinct [OF Cons.prems, of mfr d]
  show ?case
    by (cases "processDevice mfr d cat") (simp_all add: Cons.IH)
qed

lemma processDevices_Normal:
  "processDevices mfr ds cat = Normal cat' \<Longrightarrow>
   variantsOf k cat' =
     mergeVariants (variantsOf k cat)
       (concat (map (deviceVariants mfr) (filter (\<lambda>d. deviceKey mfr d = k) ds)))"
proof (induction ds arbitrary: cat)
  case Nil
  then show ?case by simp
next
  case (Cons d ds)
  from Cons.prems obtain cat1 where
    d: "processDevice mfr d cat = Normal cat1" and ds: "processDevices mfr ds cat1 = Normal cat'"
    by (auto split: outcome.splits)
  from Cons.IH [OF ds] processDevice_Normal [OF d, of k]
  show ?case by (auto simp: mergeVariants_append)
qed

lemma processDevices_Normal_lookup:
  "processDevices mfr ds cat = Normal cat' \<Longrightarrow> d \<in> set ds \<Longrightarrow>
   (case deviceKey mfr d of (c, b, m) \<Rightarrow> lookupModel c b m cat') \<noteq> None"
proof (induction ds arbitrary: cat)
  case Nil
  then show ?case by simp
next
  case (Cons x xs)
  from Cons.prems obtain cat1 where
    x: "processDevice mfr x cat = Normal cat1" and xs: "processDevices mfr xs cat1 = Normal cat'"
    by (auto split: outcome.splits)
  have keep: "(case k of (c, b, m) \<Rightarrow> lookupModel c b m cat2) \<noteq> None"
    if "processDevices mfr ys cat1' = Normal cat2"
       "(case k of (c, b, m) \<Rightarrow> lookupModel c b m cat1') \<noteq> None" for ys cat1' cat2 k
    using that
  proof (induction ys arbitrary: cat1')
    case Nil
    then show ?case by simp
  next
    case (Cons y ys)
    from Cons.prems obtain cat3 where
      y: "processDevice mfr y cat1' = Normal cat3" and ys: "processDevices mfr ys cat3 = Normal cat2"
      by (auto split: outcome.splits)
    from processDevice_Normal_lookup [OF y, of k] Cons.prems(2)
    have "(case k of (c, b, m) \<Rightarrow> lookupModel c b m cat3) \<noteq> None" by simp
    from Cons.IH [OF ys this] show ?case .
  qed
  show ?case
  proof (cases "d = x")
    case True
    from processDevice_Normal_lookup [OF x, of "deviceKey mfr x"]
    have "(case deviceKey mfr x of (c, b, m) \<Rightarrow> lookupModel c b m cat1) \<noteq> None" by simp
    from keep [OF xs this] True show ?thesis by simp
  next
    case False
    with Cons.prems have "d \<in> set xs" by simp
    from Cons.IH [OF xs this] show ?thesis .
  qed
qed

lemma isNormal_catalogOf: "isNormal x \<Longrightarrow> x = Normal (catalogOf x)"
  by (cases x) simp_all

subsection \<open>Invariants of the whole run\<close>

lemma processManufacturer_invariant:
  assumes step: "\<And>mfr ds cat. Q ds \<Longrightarrow> P cat \<Longrightarrow> P (catalogOf (processDevices mfr ds cat))"
    and resp: "\<And>i ds. devicesResponse w i = Fetched (Array ds) \<Longrightarrow> Q ds"
    and init: "P (fst st)"
  shows "P (fst (processManufacturer w i m st))"
proof (cases "devicesResponse w i")
  case (FetchError message)
  with init show ?thesis by (simp add: processManufacturer_def Let_def)
next
  case (Fetched js)
  show ?thesis
  proof (cases js)
    case NotArray
    with Fetched init show ?thesis by (simp add: processManufacturer_def Let_def)
  next
    case (Array ds)
    with Fetched have "Q ds" using resp by simp
    from step [OF this init, of "mfr_name m"] Fetched Array init show ?thesis
      by (cases "processDevices (mfr_name m) ds (fst st)")
         (simp_all add: processManufacturer_def Let_def)
  qed
qed

lemma processManufacturers_invariant:
  assumes step: "\<And>mfr ds cat. Q ds \<Longrightarrow> P cat \<Longrightarrow> P (catalogOf (processDevices mfr ds cat))"
    and resp: "\<And>i ds. devicesResponse w i = Fetched (Array ds) \<Longrightarrow> Q ds"
  shows "P (fst st) \<Longrightarrow> P (fst (processManufacturers w i ms st))"
proof (induction ms arbitrary: i st)
  case Nil
  then show ?case by simp
next
  case (Cons m ms)
  have "P (fst (processManufacturer w i m st))"
    using processManufacturer_invariant [of Q P w st i m] step resp Cons.prems by blast
  from Cons.IH [OF this] show ?case by simp
qed

lemma published_invariant:
  assumes step: "\<And>mfr ds cat. Q ds \<Longrightarrow> P cat \<Longrightarrow> P (catalogOf (processDevices mfr ds cat))"
    and resp: "\<And>i ds. devicesResponse w i = Fetched (Array ds) \<Longrightarrow> Q ds"
    and init: "P (initialCatalog (now w))"
    and pub: "published (serve w) = Some cat"
  shows "P cat"
proof -
  from pub have "published (serve w) \<noteq> None" by simp
  from serve_reaches_upload [OF this] pub obtain ms where
    "cat = fst (processManufacturers w 0 (take maxManufacturers ms)
                  (initialCatalog (now w), [FetchManufacturers]))"
    by auto
  moreover have "P (fst (processManufacturers w 0 (take maxManufacturers ms)
                  (initialCatalog (now w), [FetchManufacturers])))"
    using processManufacturers_invariant [of Q P w "(initialCatalog (now w), [FetchManufacturers])"]
      step resp init by simp
  ultimately show ?thesis by simp
qed

lemma lookupModel_initialCatalog: "lookupModel c b m (initialCatalog t) = None"
  by (simp add: lookupModel_def lookupBrand_def initialCatalog_def split: option.splits)

lemma variantsDistinct_initialCatalog: "variantsDistinct (initialCatalog t)"
  by (simp add: variantsDistinct_def variantsAt_def lookupModel_initialCatalog)

lemma variantsNonEmpty_initialCatalog: "variantsNonEmpty (initialCatalog t)"
  by (simp add: variantsNonEmpty_def lookupModel_initialCatalog)

subsection \<open>Variant lists have no duplicates and keep the first-seen order\<close>

lemma count_list_distinct: "distinct xs \<Longrightarrow> v \<in> set xs \<Longrightarrow> count_list xs v = 1"
  by (induction xs) auto

subsection \<open>The category keys\<close>

lemma categories_setModel:
  "k \<noteq> c \<Longrightarrow> categories (setModel c b m me cat) k = categories cat k"
  "dom (categories (setModel c b m me cat)) = dom (categories cat)"
  by (auto simp: setModel_def split: option.splits)

lemma categories_initCategory:
  "k \<noteq> c \<Longrightarrow> categories (initCategory c cat) k = categories cat k"
  "categories cat c \<noteq> None \<Longrightarrow> initCategory c cat = cat"
  by (auto simp: initCategory_def truthyProperty_def)

lemma categories_initBrand:
  "k \<noteq> c \<Longrightarrow> categories (catalogOf (initBrand c b cat)) k = categories cat k"
  "dom (categories (catalogOf (initBrand c b cat))) = dom (categories cat)"
  by (auto simp: initBrand_def split: option.splits)

lemma categories_initModel:
  "k \<noteq> c \<Longrightarrow> categories (catalogOf (initModel c b m cat)) k = categories cat k"
  "dom (categories (catalogOf (initModel c b m cat))) = dom (categories cat)"
  by (simp_all add: initModel_def categories_setModel split: option.splits)

lemma categories_addVariants:
  "k \<noteq> c \<Longrightarrow> categories (catalogOf (addVariants c b m sv raw cat)) k = categories cat k"
  "dom (categories (catalogOf (addVariants c b m sv raw cat))) = dom (categories cat)"
  by (simp_all add: addVariants_def Let_def categories_setModel split: option.splits)

lemma addToCatalog_steps:
  "\<exists>cat1 cat2.
     cat1 = catalogOf (initBrand c b (initCategory c cat)) \<and>
     (cat2 = cat1 \<or> cat2 = catalogOf (initModel c b m cat1)) \<and>
     (catalogOf (addToCatalog c b m sv raw cat) = cat2 \<or>
      catalogOf (addToCatalog c b m sv raw cat) = catalogOf (addVariants c b m sv raw cat2))"
  by (cases "initBrand c b (initCategory c cat)";
      cases "initModel c b m (catalogOf (initBrand c b (initCategory c cat)))")
     (auto simp: addToCatalog_def)

lemma categories_addToCatalog_other:
  assumes "k \<noteq> c"
  shows "categories (catalogOf (addToCatalog c b m sv raw cat)) k = categories cat k"
proof -
  from addToCatalog_steps [of c b cat m sv raw] obtain cat1 cat2 where
    c1: "cat1 = catalogOf (initBrand c b (initCategory c cat))" and
    c2: "cat2 = cat1 \<or> cat2 = catalogOf (initModel c b m cat1)" and
    c3: "catalogOf (addToCatalog c b m sv raw cat) = cat2 \<or>
         catalogOf (addToCatalog c b m sv raw cat) = catalogOf (addVariants c b m sv raw cat2)"
    by blast
  have k1: "categories cat1 k = categories cat k"
    using c1 assms by (simp add: categories_initBrand categories_initCategory)
  have k2: "categories cat2 k = categories cat k"
    using c2 k1 assms by (auto simp: categories_initModel)
  from c3 k2 assms show ?thesis by (auto simp: categories_addVariants)
qed

lemma categories_addToCatalog_present:
  assumes "categories cat c \<noteq> None"
  shows "dom (categories (catalogOf (addToCatalog c b m sv raw cat))) = dom (categories cat)"
proof -
  from addToCatalog_steps [of c b cat m sv raw] obtain cat1 cat2 where
    c1: "cat1 = catalogOf (initBrand c b (initCategory c cat))" and
    c2: "cat2 = cat1 \<or> cat2 = catalogOf (initModel c b m cat1)" and
    c3: "catalogOf (addToCatalog c b m sv raw cat) = cat2 \<or>
         catalogOf (addToCatalog c b m sv raw cat) = catalogOf (addVariants c b m sv raw cat2)"
    by blast
  have k1: "dom (categories cat1) = dom (categories cat)"
    using c1 assms by (simp add: categories_initBrand categories_initCategory)
  have k2: "dom (categories cat2) = dom (categories cat)"
    using c2 k1 categories_initModel(2) [of c b m cat1] by metis
  from c3 k2 categories_addVariants(2) [of c b m sv raw cat2] show ?thesis by metis
qed

lemma categoryKey_cases: "categoryKey cg \<in> {''phone'', ''tablet'', ''smartwatch''}"
  by (cases cg) simp_all

lemma categoryKey_inject: "categoryKey a = categoryKey b \<longleftrightarrow> a = b"
  by (cases a; cases b) simp_all

lemma processDevice_threeCategories:
  assumes "threeCategories cat"
  shows "threeCategories (catalogOf (processDevice mfr d cat))"
proof -
  let ?c = "categoryKey (categorizeDevice (deviceNameOf d))"
  from assms categoryKey_cases [of "categorizeDevice (deviceNameOf d)"]
  have "categories cat ?c \<noteq> None"
    unfolding threeCategories_def by blast
  from categories_addToCatalog_present [OF this] assms show ?thesis
    unfolding threeCategories_def processDevice_def Let_def by simp
qed

lemma processDevices_threeCategories:
  "threeCategories cat \<Longrightarrow> threeCategories (catalogOf (processDevices mfr ds cat))"
proof (induction ds arbitrary: cat)
  case Nil
  then show ?case by simp
next
  case (Cons d ds)
  from processDevice_threeCategories [OF Cons.prems, of mfr d]
  show ?case
    by (cases "processDevice mfr d cat") (simp_all add: Cons.IH)
qed

lemma processDevices_untouched_category:
  "\<forall>d\<in>set ds. categorizeDevice (deviceNameOf d) \<noteq> cg \<Longrightarrow>
   categories (catalogOf (processDevices mfr ds cat)) (categoryKey cg) = categories cat (categoryKey cg)"
proof (induction ds arbitrary: cat)
  case Nil
  then show ?case by simp
next
  case (Cons d ds)
  from Cons.prems have "categoryKey cg \<noteq> categoryKey (categorizeDevice (deviceNameOf d))"
    by (auto simp: categoryKey_inject)
  from categories_addToCatalog_other [OF this]
  have one: "categories (catalogOf (processDevice mfr d cat)) (categoryKey cg) =
             categories cat (categoryKey cg)"
    by (simp add: processDevice_def Let_def)
  from Cons.prems have rest: "\<forall>d\<in>set ds. categorizeDevice (deviceNameOf d) \<noteq> cg" by simp
  from one Cons.IH [OF rest] show ?case
    by (cases "processDevice mfr d cat") simp_all
qed

lemma threeCategories_initialCatalog: "threeCategories (initialCatalog t)"
proof -
  have "dom (categories (initialCatalog t)) = {''smartwatch'', ''tablet'', ''phone''}"
    by (simp add: initialCatalog_def)
  also have "\<dots> = {''phone'', ''tablet'', ''smartwatch''}"
    by (simp only: insert_commute)
  finally show ?thesis by (simp add: threeCategories_def)
qed

text \<open>
  Claim C10. The initial catalog maps \<open>phone\<close>, \<open>tablet\<close> and \<open>smartwatch\<close> to
  entries with empty brands. In every run that reaches the serialization step, the
  categories of the published catalog are exactly these three keys; and a category into
  which no device of any response was classified is still there, with empty brands.
\<close>

theorem published_category_keys:
  "categories (initialCatalog t) ''phone'' = Some \<lparr>brands = Map.empty\<rparr>
   \<and> categories (initialCatalog t) ''tablet'' = Some \<lparr>brands = Map.empty\<rparr>
   \<and> categories (initialCatalog t) ''smartwatch'' = Some \<lparr>brands = Map.empty\<rparr>
   \<and> (published (serve w) = Some pub \<longrightarrow>
        dom (categories pub) = {''phone'', ''tablet'', ''smartwatch''})
   \<and> (published (serve w) = Some pub
        \<and> (\<forall>i xs x. devicesResponse w i = Fetched (Array xs) \<and> x \<in> set xs \<longrightarrow>
              categorizeDevice (deviceNameOf x) \<noteq> cg)
        \<longrightarrow> categories pub (categoryKey cg) = Some \<lparr>brands = Map.empty\<rparr>)"
proof -
  have init: "categories (initialCatalog t) (categoryKey g) = Some \<lparr>brands = Map.empty\<rparr>" for t g
    by (cases g) (simp_all add: initialCatalog_def)
  have A: "dom (categories pub) = {''phone'', ''tablet'', ''smartwatch''}"
    if pub: "published (serve w) = Some pub"
  proof -
    have "threeCategories pub"
    proof (rule published_invariant [where Q = "\<lambda>xs. True" and P = threeCategories, OF _ _ _ pub])
      show "threeCategories (catalogOf (processDevices mfr xs c))" if "threeCategories c" for mfr xs c
        using that by (rule processDevices_threeCategories)
      show "True" ..
      show "threeCategories (initialCatalog (now w))"
        by (rule threeCategories_initialCatalog)
    qed
    then show ?thesis by (simp only: threeCategories_def)
  qed
  have B: "categories pub (categoryKey cg) = Some \<lparr>brands = Map.empty\<rparr>"
    if pub: "published (serve w) = Some pub"
      and resp: "\<forall>i xs x. devicesResponse w i = Fetched (Array xs) \<and> x \<in> set xs \<longrightarrow>
              categorizeDevice (deviceNameOf x) \<noteq> cg"
  proof (rule published_invariant [where Q = "\<lambda>xs. \<forall>x\<in>set xs. categorizeDevice (deviceNameOf x) \<noteq> cg"
        and P = "\<lambda>c. categories c (categoryKey cg) = Some \<lparr>brands = Map.empty\<rparr>", OF _ _ _ pub])
    show "categories (catalogOf (processDevices mfr xs c)) (categoryKey cg) = Some \<lparr>brands = Map.empty\<rparr>"
      if "\<forall>x\<in>set xs. categorizeDevice (deviceNameOf x) \<noteq> cg"
         "categories c (categoryKey cg) = Some \<lparr>brands = Map.empty\<rparr>" for mfr xs c
      using processDevices_untouched_category [OF that(1)] that(2) by simp
    show "\<forall>x\<in>set xs. categorizeDevice (deviceNameOf x) \<noteq> cg"
      if "devicesResponse w i = Fetched (Array xs)" for i xs
      using resp that by blast
    show "categories (initialCatalog (now w)) (categoryKey cg) = Some \<lparr>brands = Map.empty\<rparr>"
      by (rule init)
  qed
  have P: "categories (initialCatalog t) ''phone'' = Some \<lparr>brands = Map.empty\<rparr>"
    using init [of t Phone] by simp
  have T: "categories (initialCatalog t) ''tablet'' = Some \<lparr>brands = Map.empty\<rparr>"
    using init [of t Tablet] by simp
  have S: "categories (initialCatalog t) ''smartwatch'' = Some \<lparr>brands = Map.empty\<rparr>"
    using init [of t Smartwatch] by simp
  from P T S A B show ?thesis by blast
qed

theorem published_category_keys_witness:
  "published (serve (retryWorld (\<lambda>n. UploadOk))) \<noteq> None
   \<and> dom (categories (the (published (serve (retryWorld (\<lambda>n. UploadOk))))))
       = {''phone'', ''tablet'', ''smartwatch''}
   \<and> categories (the (published (serve (retryWorld (\<lambda>n. UploadOk))))) ''tablet''
       = Some \<lparr>brands = Map.empty\<rparr>"
proof -
  let ?w = "retryWorld (\<lambda>n. UploadOk)"
  have p: "published (serve ?w) \<noteq> None"
    by (simp add: serve_def retryWorld_def js_or_def failed_def Let_def
        split: sum.splits option.splits)
  then have pub: "published (serve ?w) = Some (the (published (serve ?w)))" by simp
  have none: "\<forall>i xs x. devicesResponse ?w i = Fetched (Array xs) \<and> x \<in> set xs \<longrightarrow>
              categorizeDevice (deviceNameOf x) \<noteq> Tablet"
    by (simp add: retryWorld_def)
  from published_category_keys [of _ ?w "the (published (serve ?w))" Tablet] p pub none
  show ?thesis by simp
qed

subsection \<open>A manufacturer that fails\<close>

lemma processManufacturer_failing:
  assumes "devicesResponse w i = FetchError message \<or> devicesResponse w i = Fetched NotArray
           \<or> devicesResponse w i = Fetched (Array [])"
  shows "fst (processManufacturer w i m (cat, tr)) = cat"
    and "\<exists>warnings. warnings \<noteq> [] \<and>
           snd (processManufacturer w i m (cat, tr)) =
             tr @ [Sleep 1000, FetchDevices (mfr_name m)] @ map Warn warnings"
proof -
  show "fst (processManufacturer w i m (cat, tr)) = cat"
    using assms by (auto simp: processManufacturer_def Let_def)
  define ws where "ws =
    (case devicesResponse w i of
       FetchError msg \<Rightarrow> [FailedToFetchDevices (mfr_name m) (RequestFailed msg)]
     | Fetched js \<Rightarrow> [NoDevicesFound (mfr_name m), NoDevicesEvent (mfr_name m)])"
  have "ws \<noteq> []"
    by (simp add: ws_def split: fetched.splits)
  moreover have "snd (processManufacturer w i m (cat, tr)) =
             tr @ [Sleep 1000, FetchDevices (mfr_name m)] @ map Warn ws"
    using assms by (auto simp: processManufacturer_def Let_def RATE_LIMIT_DELAY_def ws_def)
  ultimately show "\<exists>warnings. warnings \<noteq> [] \<and>
           snd (processManufacturer w i m (cat, tr)) =
             tr @ [Sleep 1000, FetchDevices (mfr_name m)] @ map Warn warnings"
    by blast
qed

lemma processManufacturer_devices:
  "devicesResponse w i = Fetched (Array ds) \<Longrightarrow>
   fst (processManufacturer w i m st) = catalogOf (processDevices (mfr_name m) ds (fst st))"
  by (cases ds; cases "processDevices (mfr_name m) ds (fst st)")
     (auto simp: processManufacturer_def Let_def)

lemma serve_early_failure:
  assumes "published (serve w) = None"
  shows "response (serve (w\<lparr>devicesResponse := other\<rparr>)) = response (serve w)"
  using assms
  by (auto simp: serve_def failed_def Let_def
      split: if_splits option.splits fetched.splits json_array.splits sum.splits)

lemma serve_response_devices:
  "response (serve (w\<lparr>devicesResponse := other\<rparr>)) = response (serve w)"
proof (cases "published (serve w) = None")
  case True
  then show ?thesis by (rule serve_early_failure)
next
  case False
  let ?w' = "w\<lparr>devicesResponse := other\<rparr>"
  from False have "published (serve ?w') \<noteq> None"
    by (auto simp: serve_def failed_def Let_def
        split: if_splits option.splits fetched.splits json_array.splits sum.splits)
  from serve_reaches_upload [OF this] obtain
    r': "response (serve ?w') =
               (case fst (uploadLoop (uploadResponse ?w') 0 None []) of
                  Inl message \<Rightarrow> Failure message
                | Inr (Some message) \<Rightarrow>
                    Failure (''Failed to upload catalog to Storage after 3 retries: '' @ message)
                | Inr None \<Rightarrow> Success (now ?w'))"
    by blast
  from serve_reaches_upload [OF False] obtain
    r: "response (serve w) =
               (case fst (uploadLoop (uploadResponse w) 0 None []) of
                  Inl message \<Rightarrow> Failure message
                | Inr (Some message) \<Rightarrow>
                    Failure (''Failed to upload catalog to Storage after 3 retries: '' @ message)
                | Inr None \<Rightarrow> Success (now w))"
    by blast
  from r r' show ?thesis by (simp split: sum.splits option.splits)
qed

subsection \<open>When the fold of a device list completes\<close>

lemma categoryKey_not_inherited: "categoryKey cg \<notin> set objectPrototypeKeys"
  by (cases cg) (simp_all add: objectPrototypeKeys_def)

lemma addToCatalog_isNormal:
  assumes "c \<notin> set objectPrototypeKeys" "b \<notin> set objectPrototypeKeys"
    "m \<notin> set objectPrototypeKeys"
  shows "isNormal (addToCatalog c b m sv raw cat)"
proof -
  have c0: "categories (initCategory c cat) c \<noteq> None"
    using assms(1) by (auto simp: initCategory_def truthyProperty_def)
  then have "\<exists>cat1. initBrand c b (initCategory c cat) = Normal cat1"
    by (auto simp: initBrand_def)
  then obtain cat1 where s1: "initBrand c b (initCategory c cat) = Normal cat1" ..
  from initBrand_Normal_lookup [OF s1] assms(2) have b1: "lookupBrand c b cat1 \<noteq> None" by auto
  then have "\<exists>cat2. initModel c b m cat1 = Normal cat2"
    by (auto simp: initModel_def)
  then obtain cat2 where s2: "initModel c b m cat1 = Normal cat2" ..
  from initModel_cases(2) [OF s2] assms(3) b1 have m2: "lookupModel c b m cat2 \<noteq> None"
    by (auto simp: lookupModel_setModel)
  then have "isNormal (addVariants c b m sv raw cat2)"
    by (auto simp: addVariants_def Let_def)
  with s1 s2 show ?thesis by (simp add: addToCatalog_def)
qed

lemma processDevices_isNormal:
  "\<forall>d\<in>set ds. brandNameOf mfr d \<notin> set objectPrototypeKeys
       \<and> extractModelName (deviceNameOf d) (brandNameOf mfr d) \<notin> set objectPrototypeKeys \<Longrightarrow>
   isNormal (processDevices mfr ds cat)"
proof (induction ds arbitrary: cat)
  case Nil
  show ?case by simp
next
  case (Cons d ds)
  have "isNormal (processDevice mfr d cat)"
    using Cons.prems categoryKey_not_inherited
    by (simp add: processDevice_def Let_def addToCatalog_isNormal)
  with Cons show ?case
    by (cases "processDevice mfr d cat") simp_all
qed

lemma processDevices_contains:
  assumes "isNormal (processDevices mfr ds cat)" and "d \<in> set ds"
  shows "(case deviceKey mfr d of (c, b, m) \<Rightarrow>
            lookupModel c b m (catalogOf (processDevices mfr ds cat))) \<noteq> None"
    and "set (deviceVariants mfr d) \<subseteq>
           set (variantsOf (deviceKey mfr d) (catalogOf (processDevices mfr ds cat)))"
proof -
  note n = isNormal_catalogOf [OF assms(1)]
  show "(case deviceKey mfr d of (c, b, m) \<Rightarrow>
            lookupModel c b m (catalogOf (processDevices mfr ds cat))) \<noteq> None"
    using processDevices_Normal_lookup [OF n assms(2)] .
  show "set (deviceVariants mfr d) \<subseteq>
           set (variantsOf (deviceKey mfr d) (catalogOf (processDevices mfr ds cat)))"
    using processDevices_Normal [OF n, of "deviceKey mfr d"] assms(2)
    by (auto simp: set_mergeVariants)
qed

text \<open>
  What holds on every run. When the devices request of a manufacturer throws, or yields
  something that is not an array, or an empty array, the iteration leaves the catalog as
  it was, adds to the trace the sleep, the request and at least one warning, and the
  loop goes on with the next manufacturer. The response of a run does not depend on the
  outcomes of the devices requests at all, so none of them can turn it into a failure.
  For the manufacturers A and B, where the request of A throws and the first upload
  succeeds, the run answers with success and publishes the catalog built from the
  devices of B alone; and when no brand or model name of these devices is the name of a
  property inherited by every object, each device of B has its model in that catalog,
  with all its variants.
\<close>

lemma manufacturer_failure_general:
  "((devicesResponse w i = FetchError message \<or> devicesResponse w i = Fetched NotArray
       \<or> devicesResponse w i = Fetched (Array []))
      \<longrightarrow> fst (processManufacturer w i m (cat, tr)) = cat
        \<and> (\<exists>warnings. warnings \<noteq> [] \<and>
              snd (processManufacturer w i m (cat, tr)) =
                tr @ [Sleep 1000, FetchDevices (mfr_name m)] @ map Warn warnings)
        \<and> processManufacturers w i (m # rest) (cat, tr) =
            processManufacturers w (Suc i) rest (cat, snd (processManufacturer w i m (cat, tr))))
   \<and> response (serve (w\<lparr>devicesResponse := other\<rparr>)) = response (serve w)
   \<and> (published (serve w) \<noteq> None \<and> manufacturersResponse w = Fetched (Array [A, B])
        \<and> devicesResponse w 0 = FetchError message \<and> devicesResponse w 1 = Fetched (Array ds)
        \<and> uploadResponse w 0 = UploadOk
      \<longrightarrow> response (serve w) = Success (now w)
        \<and> published (serve w) =
            Some (catalogOf (processDevices (mfr_name B) ds (initialCatalog (now w))))
        \<and> ((\<forall>d\<in>set ds. brandNameOf (mfr_name B) d \<notin> set objectPrototypeKeys
                \<and> extractModelName (deviceNameOf d) (brandNameOf (mfr_name B) d)
                    \<notin> set objectPrototypeKeys)
            \<longrightarrow> (\<forall>d\<in>set ds.
                  (case deviceKey (mfr_name B) d of (c, b, m) \<Rightarrow>
                     lookupModel c b m
                       (catalogOf (processDevices (mfr_name B) ds (initialCatalog (now w)))))
                    \<noteq> None
                  \<and> set (deviceVariants (mfr_name B) d) \<subseteq>
                      set (variantsOf (deviceKey (mfr_name B) d)
                        (catalogOf (processDevices (mfr_name B) ds (initialCatalog (now w))))))))"
proof -
  have one: "fst (processManufacturer w i m (cat, tr)) = cat
        \<and> (\<exists>warnings. warnings \<noteq> [] \<and>
              snd (processManufacturer w i m (cat, tr)) =
                tr @ [Sleep 1000, FetchDevices (mfr_name m)] @ map Warn warnings)
        \<and> processManufacturers w i (m # rest) (cat, tr) =
            processManufacturers w (Suc i) rest (cat, snd (processManufacturer w i m (cat, tr)))"
    if fails: "devicesResponse w i = FetchError message \<or> devicesResponse w i = Fetched NotArray
       \<or> devicesResponse w i = Fetched (Array [])"
  proof -
    note f = processManufacturer_failing [OF fails, of m cat tr]
    have "processManufacturer w i m (cat, tr) = (cat, snd (processManufacturer w i m (cat, tr)))"
      using f(1) by (metis prod.collapse)
    then have "processManufacturers w i (m # rest) (cat, tr) =
            processManufacturers w (Suc i) rest (cat, snd (processManufacturer w i m (cat, tr)))"
      by simp
    with f show ?thesis by blast
  qed
  have two: "response (serve (w\<lparr>devicesResponse := other\<rparr>)) = response (serve w)"
    by (rule serve_response_devices)
  let ?final = "catalogOf (processDevices (mfr_name B) ds (initialCatalog (now w)))"
  have three: "response (serve w) = Success (now w) \<and> published (serve w) = Some ?final"
    if pub: "published (serve w) \<noteq> None"
      and ms: "manufacturersResponse w = Fetched (Array [A, B])"
      and a: "devicesResponse w 0 = FetchError message"
      and b: "devicesResponse w 1 = Fetched (Array ds)"
      and up: "uploadResponse w 0 = UploadOk"
  proof -
    let ?st0 = "(initialCatalog (now w), [FetchManufacturers])"
    have a0: "fst (processManufacturer w 0 A ?st0) = initialCatalog (now w)"
      using processManufacturer_failing(1) [of w 0 message A "initialCatalog (now w)" "[FetchManufacturers]"] a
      by simp
    have "fst (processManufacturers w 0 (take maxManufacturers [A, B]) ?st0) =
            fst (processManufacturer w 1 B (processManufacturer w 0 A ?st0))"
      by (simp add: maxManufacturers_def)
    also have "\<dots> = ?final"
      using processManufacturer_devices [OF b, of B "processManufacturer w 0 A ?st0"] a0 by simp
    finally have cat: "fst (processManufacturers w 0 (take maxManufacturers [A, B]) ?st0) = ?final" .
    have loop: "uploadLoop (uploadResponse w) 0 None [] = (Inr None, attemptEvents 0)"
      using uploadLoop_ok [of 0 "uploadResponse w" None "[]"] up by simp
    from serve_reaches_upload [OF pub] ms cat loop show ?thesis by auto
  qed
  have four: "\<forall>d\<in>set ds.
                  (case deviceKey (mfr_name B) d of (c, b, m) \<Rightarrow> lookupModel c b m ?final) \<noteq> None
                  \<and> set (deviceVariants (mfr_name B) d) \<subseteq>
                      set (variantsOf (deviceKey (mfr_name B) d) ?final)"
    if safe: "\<forall>d\<in>set ds. brandNameOf (mfr_name B) d \<notin> set objectPrototypeKeys
                \<and> extractModelName (deviceNameOf d) (brandNameOf (mfr_name B) d)
                    \<notin> set objectPrototypeKeys"
  proof
    fix d assume d: "d \<in> set ds"
    have n: "isNormal (processDevices (mfr_name B) ds (initialCatalog (now w)))"
      using processDevices_isNormal [OF safe] .
    from processDevices_contains [OF n d]
    show "(case deviceKey (mfr_name B) d of (c, b, m) \<Rightarrow> lookupModel c b m ?final) \<noteq> None
                  \<and> set (deviceVariants (mfr_name B) d) \<subseteq>
                      set (variantsOf (deviceKey (mfr_name B) d) ?final)"
      by simp
  qed
  from one two three four show ?thesis by blast
qed

lemma manufacturer_failure_example:
  "published (serve twoManufacturersWorld) \<noteq> None
   \<and> devicesResponse twoManufacturersWorld 0 = FetchError ''HTTP 500''
   \<and> response (serve twoManufacturersWorld) = Success ''2025-01-01T00:00:00.000Z''
   \<and> lookupModel ''phone'' ''B'' ''X1'' (the (published (serve twoManufacturersWorld))) \<noteq> None
   \<and> ''64GB'' \<in> set (variantsOf (''phone'', ''B'', ''X1'')
                      (the (published (serve twoManufacturersWorld))))"
proof -
  let ?w = twoManufacturersWorld
  let ?d = "sampleDevice ''B X1'' (Some ''64GB'')"
  have p: "published (serve ?w) \<noteq> None"
    by (simp add: serve_def twoManufacturersWorld_def js_or_def failed_def Let_def
        split: sum.splits option.splits)
  have ms: "manufacturersResponse ?w = Fetched (Array [Manufacturer 1 ''A'' None, Manufacturer 2 ''B'' None])"
    by (simp add: twoManufacturersWorld_def)
  have a: "devicesResponse ?w 0 = FetchError ''HTTP 500''"
    by (simp add: twoManufacturersWorld_def)
  have b: "devicesResponse ?w 1 = Fetched (Array [?d])"
    by (simp add: twoManufacturersWorld_def)
  have up: "uploadResponse ?w 0 = UploadOk"
    by (simp add: twoManufacturersWorld_def)
  have t: "now ?w = ''2025-01-01T00:00:00.000Z''"
    by (simp add: twoManufacturersWorld_def)
  have brand: "brandNameOf ''B'' ?d = ''B''" by code_simp
  have model: "extractModelName (deviceNameOf ?d) ''B'' = ''X1''" by code_simp
  have key: "deviceKey ''B'' ?d = (''phone'', ''B'', ''X1'')" by code_simp
  have vs: "deviceVariants ''B'' ?d = [''64GB'']" by code_simp
  have safe: "''B'' \<notin> set objectPrototypeKeys" "''X1'' \<notin> set objectPrototypeKeys"
    by (simp_all add: objectPrototypeKeys_def)
  from manufacturer_failure_general [of ?w 0 "''HTTP 500''" "Manufacturer 1 ''A'' None"
      "initialCatalog ''t''" "[]" "[]" "devicesResponse ?w" "Manufacturer 1 ''A'' None"
      "Manufacturer 2 ''B'' None" "[?d]"]
    p ms a b up t brand model key vs safe
  show ?thesis by simp
qed

subsection \<open>Folding a tuple that is already there\<close>

lemma initCategory_idem: "initCategory c (initCategory c cat) = initCategory c cat"
  by (simp add: initCategory_def truthyProperty_def)

lemma initBrand_present: "lookupBrand c b cat \<noteq> None \<Longrightarrow> initBrand c b cat = Normal cat"
  by (auto simp: initBrand_def lookupBrand_def truthyProperty_def split: option.splits)

lemma initModel_present: "lookupModel c b m cat \<noteq> None \<Longrightarrow> initModel c b m cat = Normal cat"
  by (auto simp: initModel_def lookupModel_def truthyProperty_def split: option.splits)

lemma lookupBrand_category: "lookupBrand c b cat \<noteq> None \<Longrightarrow> categories cat c \<noteq> None"
  by (auto simp: lookupBrand_def split: option.splits)

lemma lookupModel_brand: "lookupModel c b m cat \<noteq> None \<Longrightarrow> lookupBrand c b cat \<noteq> None"
  by (auto simp: lookupModel_def split: option.splits)

lemma setModel_same:
  assumes "lookupModel c b m cat = Some me"
  shows "setModel c b m me cat = cat"
proof -
  from assms obtain ce be where
    ce: "categories cat c = Some ce" and be: "brands ce b = Some be" and me: "models be m = Some me"
    by (auto simp: lookupModel_def lookupBrand_def split: option.splits)
  have "(models be)(m \<mapsto> me) = models be" using me by (rule map_upd_triv)
  then have "be\<lparr>models := (models be)(m \<mapsto> me)\<rparr> = be" by simp
  then have "(brands ce)(b \<mapsto> be\<lparr>models := (models be)(m \<mapsto> me)\<rparr>) = brands ce"
    using be by (simp add: map_upd_triv)
  then have "ce\<lparr>brands := (brands ce)(b \<mapsto> be\<lparr>models := (models be)(m \<mapsto> me)\<rparr>)\<rparr> = ce"
    by simp
  then have "(categories cat)(c \<mapsto> ce\<lparr>brands := (brands ce)(b \<mapsto> be\<lparr>models := (models be)(m \<mapsto> me)\<rparr>)\<rparr>)
              = categories cat"
    using ce by (simp add: map_upd_triv)
  then show ?thesis
    using ce be by (simp add: setModel_def)
qed

lemma addVariants_present:
  assumes "lookupModel c b m cat = Some me"
    and "set (tupleVariants m sv raw) \<subseteq> set (variants me)"
  shows "addVariants c b m sv raw cat = Normal cat"
proof (cases "length sv > 0")
  case True
  with assms(2) have "mergeVariants (variants me) sv = variants me"
    by (simp add: tupleVariants_def mergeVariants_present)
  with True assms(1) show ?thesis
    by (simp add: addVariants_def setModel_same)
next
  case False
  with assms show ?thesis
    by (auto simp: addVariants_def tupleVariants_def Let_def split: if_splits)
qed

lemma addToCatalog_present:
  assumes "lookupModel c b m cat = Some me"
    and "set (tupleVariants m sv raw) \<subseteq> set (variants me)"
  shows "addToCatalog c b m sv raw cat = Normal cat"
proof -
  have m: "lookupModel c b m cat \<noteq> None" using assms(1) by simp
  note b = lookupModel_brand [OF m]
  note c = lookupBrand_category [OF b]
  show ?thesis
    using categories_initCategory(2) [OF c] initBrand_present [OF b] initModel_present [OF m]
      addVariants_present [OF assms]
    by (simp add: addToCatalog_def)
qed

lemma initBrand_stable:
  assumes "initBrand c b cat = Normal cat1"
  shows "categories cat1 c \<noteq> None" and "initBrand c b cat1 = Normal cat1"
  using assms
  by (auto simp: initBrand_def truthyProperty_def split: option.splits if_splits)

lemma initBrand_TypeError:
  "initBrand c b cat = TypeError cat1 \<Longrightarrow> cat1 = cat"
  by (auto simp: initBrand_def split: option.splits if_splits)

lemma addVariants_TypeError:
  "addVariants c b m sv raw cat = TypeError cat1 \<Longrightarrow> cat1 = cat"
  by (auto simp: addVariants_def Let_def split: option.splits if_splits)

lemma initModel_stable:
  assumes "initModel c b m cat1 = Normal cat2"
    and "categories cat1 c \<noteq> None" and "initBrand c b cat1 = Normal cat1"
  shows "categories cat2 c \<noteq> None" and "initBrand c b cat2 = Normal cat2"
    and "initModel c b m cat2 = Normal cat2"
proof -
  note cases = initModel_cases(2) [OF assms(1)]
  then have br: "lookupBrand c b cat1 \<noteq> None" by simp
  consider (same) "cat2 = cat1"
    | (created) "lookupModel c b m cat1 = None" "cat2 = setModel c b m \<lparr>variants = []\<rparr> cat1"
    using cases by auto
  then have "categories cat2 c \<noteq> None \<and> initBrand c b cat2 = Normal cat2
              \<and> initModel c b m cat2 = Normal cat2"
  proof cases
    case same
    with assms show ?thesis by simp
  next
    case created
    have m2: "lookupModel c b m cat2 \<noteq> None"
      using created br by (simp add: lookupModel_setModel)
    from lookupBrand_category [OF lookupModel_brand [OF m2]]
      initBrand_present [OF lookupModel_brand [OF m2]] initModel_present [OF m2]
    show ?thesis by simp
  qed
  then show "categories cat2 c \<noteq> None" and "initBrand c b cat2 = Normal cat2"
    and "initModel c b m cat2 = Normal cat2"
    by simp_all
qed

lemma addToCatalog_again:
  "addToCatalog c b m sv raw (catalogOf (addToCatalog c b m sv raw cat)) =
   addToCatalog c b m sv raw cat"
proof (cases "addToCatalog c b m sv raw cat")
  case (Normal cat')
  from addToCatalog_Normal(1) [OF Normal] obtain me where me: "lookupModel c b m cat' = Some me"
    by auto
  from addToCatalog_Normal(2) [OF Normal, of c b m] me
  have "variants me = mergeVariants (variantsAt c b m cat) (tupleVariants m sv raw)"
    by (simp add: variantsAt_def)
  then have "set (tupleVariants m sv raw) \<subseteq> set (variants me)"
    by (simp add: set_mergeVariants)
  from addToCatalog_present [OF me this] Normal show ?thesis by simp
next
  case (TypeError cat')
  let ?cat0 = "initCategory c cat"
  show ?thesis
  proof (cases "initBrand c b ?cat0")
    case e1: (TypeError x)
    with TypeError initBrand_TypeError [OF e1] have "cat' = ?cat0"
      by (simp add: addToCatalog_def)
    with e1 initBrand_TypeError [OF e1] TypeError show ?thesis
      by (simp add: addToCatalog_def initCategory_idem)
  next
    case n1: (Normal cat1)
    note s1 = initBrand_stable [OF n1]
    have i1: "initCategory c cat1 = cat1"
      using categories_initCategory(2) [OF s1(1)] .
    show ?thesis
    proof (cases "initModel c b m cat1")
      case e2: (TypeError x)
      with initModel_cases(1) [OF e2] n1 TypeError have "cat' = cat1" "x = cat1"
        by (simp_all add: addToCatalog_def)
      with e2 n1 s1 i1 TypeError show ?thesis
        by (simp add: addToCatalog_def)
    next
      case n2: (Normal cat2)
      note s2 = initModel_stable [OF n2 s1]
      have i2: "initCategory c cat2 = cat2"
        using categories_initCategory(2) [OF s2(1)] .
      from TypeError n1 n2 have e3: "addVariants c b m sv raw cat2 = TypeError cat'"
        by (simp add: addToCatalog_def)
      from addVariants_TypeError [OF e3] have "cat' = cat2" .
      with e3 s2 i2 TypeError show ?thesis
        by (simp add: addToCatalog_def)
    qed
  qed
qed

text \<open>
  Claim C6. Folding a normalized tuple (category, brand, model, storage variants and raw
  storage field) into the catalog that results from folding it once gives that same
  catalog, with the same outcome; so does processing a device a second time. Creating a
  category, brand or model that is already present changes nothing, and so does merging
  variants that are all present.
\<close>

theorem addToCatalog_idempotent:
  "addToCatalog c b m sv raw (catalogOf (addToCatalog c b m sv raw cat)) =
     addToCatalog c b m sv raw cat
   \<and> processDevice mfr d (catalogOf (processDevice mfr d cat)) = processDevice mfr d cat
   \<and> (categories cat c \<noteq> None \<longrightarrow> initCategory c cat = cat)
   \<and> (lookupBrand c b cat \<noteq> None \<longrightarrow> initBrand c b cat = Normal cat)
   \<and> (lookupModel c b m cat \<noteq> None \<longrightarrow> initModel c b m cat = Normal cat)
   \<and> (set vs \<subseteq> set existing \<longrightarrow> mergeVariants existing vs = existing)"
proof -
  have "processDevice mfr d (catalogOf (processDevice mfr d cat)) = processDevice mfr d cat"
    by (simp add: processDevice_def Let_def addToCatalog_again)
  with addToCatalog_again [of c b m sv raw cat] categories_initCategory(2) [of cat c]
    initBrand_present [of c b cat] initModel_present [of c b m cat]
    mergeVariants_present [of vs existing]
  show ?thesis by blast
qed

theorem addToCatalog_idempotent_witness:
  "lookupModel ''phone'' ''B'' ''X1''
      (catalogOf (addToCatalog ''phone'' ''B'' ''X1'' [''64GB''] (Some ''64GB'') (initialCatalog ''t'')))
     \<noteq> None
   \<and> addToCatalog ''phone'' ''B'' ''X1'' [''64GB''] (Some ''64GB'')
       (catalogOf (addToCatalog ''phone'' ''B'' ''X1'' [''64GB''] (Some ''64GB'') (initialCatalog ''t'')))
     = addToCatalog ''phone'' ''B'' ''X1'' [''64GB''] (Some ''64GB'') (initialCatalog ''t'')
   \<and> initModel ''phone'' ''B'' ''X1''
       (catalogOf (addToCatalog ''phone'' ''B'' ''X1'' [''64GB''] (Some ''64GB'') (initialCatalog ''t'')))
     = Normal (catalogOf (addToCatalog ''phone'' ''B'' ''X1'' [''64GB''] (Some ''64GB'')
                 (initialCatalog ''t'')))
   \<and> mergeVariants [''64GB'', ''128GB''] [''128GB''] = [''64GB'', ''128GB'']"
proof -
  let ?once = "catalogOf (addToCatalog ''phone'' ''B'' ''X1'' [''64GB''] (Some ''64GB'')
                 (initialCatalog ''t''))"
  have m: "lookupModel ''phone'' ''B'' ''X1'' ?once \<noteq> None"
    by code_simp
  from addToCatalog_idempotent [of "''phone''" "''B''" "''X1''" "[''64GB'']" "Some ''64GB''"
      "initialCatalog ''t''"]
    addToCatalog_idempotent [of "''phone''" "''B''" "''X1''" "[]" None ?once _ _
      "[''128GB'']" "[''64GB'', ''128GB'']"] m
  show ?thesis by simp
qed

section \<open>Properties of the model name extraction\<close>

subsection \<open>The suffix patterns\<close>

lemma tokenAt_iff:
  "tokenAt t s \<longleftrightarrow>
     (\<exists>u rest. s = u @ rest \<and> map canonicalize u = map canonicalize t
        \<and> (\<forall>c\<in>set rest. \<not> isLineTerminator c))"
proof
  assume "tokenAt t s"
  then have "s = take (length t) s @ drop (length t) s
      \<and> map canonicalize (take (length t) s) = map canonicalize t
      \<and> (\<forall>c\<in>set (drop (length t) s). \<not> isLineTerminator c)"
    by (auto simp: tokenAt_def list_ex_iff split: if_splits)
  then show "\<exists>u rest. s = u @ rest \<and> map canonicalize u = map canonicalize t
        \<and> (\<forall>c\<in>set rest. \<not> isLineTerminator c)"
    by blast
next
  assume "\<exists>u rest. s = u @ rest \<and> map canonicalize u = map canonicalize t
        \<and> (\<forall>c\<in>set rest. \<not> isLineTerminator c)"
  then obtain u rest where s: "s = u @ rest" and u: "map canonicalize u = map canonicalize t"
    and r: "\<forall>c\<in>set rest. \<not> isLineTerminator c"
    by blast
  from u have "length u = length t" by (rule map_eq_imp_length_eq)
  with s u r show "tokenAt t s"
    by (simp add: tokenAt_def list_ex_iff)
qed

lemma matchAt_iff:
  "matchAt toks s \<longleftrightarrow>
     (\<exists>ws u rest t. s = ws @ u @ rest \<and> (\<forall>c\<in>set ws. isWhiteSpace c) \<and> t \<in> set toks
        \<and> map canonicalize u = map canonicalize t \<and> (\<forall>c\<in>set rest. \<not> isLineTerminator c))"
proof
  assume "matchAt toks s"
  then have "\<exists>k\<in>set [0 ..< Suc (length (takeWhile isWhiteSpace s))].
               \<exists>t\<in>set toks. tokenAt t (drop k s)"
    by (simp add: matchAt_def list_ex_iff)
  then obtain k where k': "k \<in> set [0 ..< Suc (length (takeWhile isWhiteSpace s))]"
    and ex: "\<exists>t\<in>set toks. tokenAt t (drop k s)"
    by blast
  from ex obtain t where t: "t \<in> set toks" and tok: "tokenAt t (drop k s)"
    by blast
  from k' have k: "k \<le> length (takeWhile isWhiteSpace s)" by auto
  from tok obtain u rest where d: "drop k s = u @ rest"
    and u: "map canonicalize u = map canonicalize t" and r: "\<forall>c\<in>set rest. \<not> isLineTerminator c"
    by (auto simp: tokenAt_iff)
  have "take k s = take k (takeWhile isWhiteSpace s @ dropWhile isWhiteSpace s)"
    by simp
  also have "\<dots> = take k (takeWhile isWhiteSpace s)"
    using k by (simp only: take_append) simp
  finally have "take k s = take k (takeWhile isWhiteSpace s)" .
  then have ws: "\<forall>c\<in>set (take k s). isWhiteSpace c"
    by (auto dest: in_set_takeD set_takeWhileD)
  have "s = take k s @ drop k s" by simp
  with d have "s = take k s @ u @ rest" by simp
  with ws t u r show "\<exists>ws u rest t. s = ws @ u @ rest \<and> (\<forall>c\<in>set ws. isWhiteSpace c) \<and> t \<in> set toks
        \<and> map canonicalize u = map canonicalize t \<and> (\<forall>c\<in>set rest. \<not> isLineTerminator c)"
    by blast
next
  assume "\<exists>ws u rest t. s = ws @ u @ rest \<and> (\<forall>c\<in>set ws. isWhiteSpace c) \<and> t \<in> set toks
        \<and> map canonicalize u = map canonicalize t \<and> (\<forall>c\<in>set rest. \<not> isLineTerminator c)"
  then obtain ws u rest t where s: "s = ws @ u @ rest" and ws: "\<forall>c\<in>set ws. isWhiteSpace c"
    and t: "t \<in> set toks" and u: "map canonicalize u = map canonicalize t"
    and r: "\<forall>c\<in>set rest. \<not> isLineTerminator c"
    by blast
  have "takeWhile isWhiteSpace s = ws @ takeWhile isWhiteSpace (u @ rest)"
    using s ws by (simp add: takeWhile_append2)
  then have k: "length ws \<le> length (takeWhile isWhiteSpace s)" by simp
  have "tokenAt t (drop (length ws) s)"
    using s u r by (auto simp: tokenAt_iff)
  with k t show "matchAt toks s"
    by (auto simp: matchAt_def list_ex_iff intro!: bexI [of _ "length ws"])
qed

lemma removeSuffixMatch_cut:
  "\<exists>rest. s = removeSuffixMatch toks s @ rest \<and> (rest = [] \<or> matchAt toks rest)
     \<and> (\<forall>p<length (removeSuffixMatch toks s). \<not> matchAt toks (drop p s))"
proof (induction s)
  case Nil
  show ?case by simp
next
  case (Cons c cs)
  show ?case
  proof (cases "matchAt toks (c # cs)")
    case True
    then show ?thesis by simp
  next
    case False
    from Cons.IH obtain rest where rest: "cs = removeSuffixMatch toks cs @ rest"
      "rest = [] \<or> matchAt toks rest"
      "\<forall>p<length (removeSuffixMatch toks cs). \<not> matchAt toks (drop p cs)"
      by blast
    have "\<not> matchAt toks (drop p (c # cs))" if "p < length (c # removeSuffixMatch toks cs)" for p
      using that False rest(3) by (cases p) simp_all
    with False rest(1,2) show ?thesis by auto
  qed
qed

lemma removeSuffixMatch_prefix: "prefix (removeSuffixMatch toks s) s"
  using removeSuffixMatch_cut [of s toks] by (metis prefixI)

lemma removeSuffixMatch_before_token:
  assumes "s = a @ u @ rest" "t \<in> set toks" "map canonicalize u = map canonicalize t"
    "\<forall>c\<in>set rest. \<not> isLineTerminator c"
  shows "length (removeSuffixMatch toks s) \<le> length a"
proof (rule ccontr)
  assume "\<not> length (removeSuffixMatch toks s) \<le> length a"
  then have "length a < length (removeSuffixMatch toks s)" by simp
  with removeSuffixMatch_cut [of s toks] have "\<not> matchAt toks (drop (length a) s)" by blast
  moreover have "matchAt toks (drop (length a) s)"
    unfolding matchAt_iff using assms
    by (intro exI [of _ "[]"] exI [of _ u] exI [of _ rest] exI [of _ t]) simp
  ultimately show False by simp
qed

lemma length_trim: "length (trim s) \<le> length s"
proof -
  have "length (trim s) \<le> length (dropWhile isWhiteSpace s)"
    unfolding trim_def by (metis length_rev length_dropWhile_le)
  also have "\<dots> \<le> length s" by (rule length_dropWhile_le)
  finally show ?thesis .
qed

lemma extractModelName_example:
  "extractModelName ''Samsung Galaxy S21 128GB Black'' ''Samsung'' = ''Galaxy S21''"
  by code_simp

lemma extractModelName_unfold:
  "extractModelName d b =
     (if trim (removeSuffixMatch colorTokens (removeSuffixMatch storageTokens (brandStripped d b))) = []
      then d
      else trim (removeSuffixMatch colorTokens (removeSuffixMatch storageTokens (brandStripped d b))))"
  by (simp add: extractModelName_def brandStripped_def Let_def)

text \<open>
  Claim C1, as stated: the storage token and the color token are stripped only when
  they are at the end of the string. It fails for "Galaxy 128GB Edition": no token is
  at its end, and yet the code cuts the name at the storage token.
\<close>

theorem extractModelName_trailing_counterexample:
  "extractModelName ''Galaxy 128GB Edition'' ''Samsung'' = ''Galaxy''
   \<and> extractModelName_trailing ''Galaxy 128GB Edition'' ''Samsung'' = ''Galaxy 128GB Edition''"
  by code_simp

text \<open>
  Claim C1, amended. After the removal of a leading brand name (up to case, and trimmed),
  the name is cut at the leftmost position where a storage pattern matches, and what
  remains is cut at the leftmost position where a color pattern matches; a pattern
  matches where a run of white space, then one of the tokens up to case, then any
  characters other than line terminators reach the end of the string. The result is
  trimmed, and it is the device name when nothing is left. So a storage token anywhere
  in the name, followed by no line terminator, removes itself and everything after it:
  the result is the device name or no longer than what stood before the token.
  "Samsung Galaxy S21 128GB Black" with the brand "Samsung" gives "Galaxy S21".
\<close>

theorem extractModelName_cuts_at_first_token:
  "(\<exists>cut1 rest1 cut2 rest2.
        brandStripped d b = cut1 @ rest1
      \<and> (rest1 = [] \<or> matchAt storageTokens rest1)
      \<and> (\<forall>p<length cut1. \<not> matchAt storageTokens (drop p (brandStripped d b)))
      \<and> cut1 = cut2 @ rest2
      \<and> (rest2 = [] \<or> matchAt colorTokens rest2)
      \<and> (\<forall>p<length cut2. \<not> matchAt colorTokens (drop p cut1))
      \<and> extractModelName d b = (if trim cut2 = [] then d else trim cut2))
   \<and> (matchAt toks s \<longleftrightarrow>
        (\<exists>ws u rest t. s = ws @ u @ rest \<and> (\<forall>c\<in>set ws. isWhiteSpace c) \<and> t \<in> set toks
           \<and> map canonicalize u = map canonicalize t \<and> (\<forall>c\<in>set rest. \<not> isLineTerminator c)))
   \<and> (brandStripped d b = a @ u @ rest \<and> t \<in> set storageTokens
        \<and> map canonicalize u = map canonicalize t \<and> (\<forall>c\<in>set rest. \<not> isLineTerminator c)
      \<longrightarrow> extractModelName d b = d \<or> length (extractModelName d b) \<le> length a)
   \<and> extractModelName ''Samsung Galaxy S21 128GB Black'' ''Samsung'' = ''Galaxy S21''"
proof -
  let ?m = "brandStripped d b"
  let ?c1 = "removeSuffixMatch storageTokens ?m"
  let ?c2 = "removeSuffixMatch colorTokens ?c1"
  from removeSuffixMatch_cut [of ?m storageTokens] obtain rest1 where
    r1: "?m = ?c1 @ rest1" "rest1 = [] \<or> matchAt storageTokens rest1"
        "\<forall>p<length ?c1. \<not> matchAt storageTokens (drop p ?m)"
    by blast
  from removeSuffixMatch_cut [of ?c1 colorTokens] obtain rest2 where
    r2: "?c1 = ?c2 @ rest2" "rest2 = [] \<or> matchAt colorTokens rest2"
        "\<forall>p<length ?c2. \<not> matchAt colorTokens (drop p ?c1)"
    by blast
  have res: "extractModelName d b = (if trim ?c2 = [] then d else trim ?c2)"
    by (rule extractModelName_unfold)
  have A: "\<exists>cut1 rest1 cut2 rest2.
        ?m = cut1 @ rest1
      \<and> (rest1 = [] \<or> matchAt storageTokens rest1)
      \<and> (\<forall>p<length cut1. \<not> matchAt storageTokens (drop p ?m))
      \<and> cut1 = cut2 @ rest2
      \<and> (rest2 = [] \<or> matchAt colorTokens rest2)
      \<and> (\<forall>p<length cut2. \<not> matchAt colorTokens (drop p cut1))
      \<and> extractModelName d b = (if trim cut2 = [] then d else trim cut2)"
    using r1 r2 res by blast
  have C: "extractModelName d b = d \<or> length (extractModelName d b) \<le> length a"
    if "?m = a @ u @ rest" "t \<in> set storageTokens" "map canonicalize u = map canonicalize t"
       "\<forall>c\<in>set rest. \<not> isLineTerminator c"
  proof -
    have "length (trim ?c2) \<le> length ?c2" by (rule length_trim)
    also have "\<dots> \<le> length ?c1"
      using removeSuffixMatch_prefix [of colorTokens ?c1] by (rule prefix_length_le)
    also have "\<dots> \<le> length a"
      using that by (rule removeSuffixMatch_before_token)
    finally show ?thesis using res by auto
  qed
  from A matchAt_iff [of toks s] C extractModelName_example show ?thesis by blast
qed

theorem extractModelName_cuts_at_first_token_witness:
  "brandStripped ''Galaxy 128GB Edition'' ''Samsung'' = ''Galaxy '' @ ''128GB'' @ '' Edition''
   \<and> (extractModelName ''Galaxy 128GB Edition'' ''Samsung'' = ''Galaxy 128GB Edition''
        \<or> length (extractModelName ''Galaxy 128GB Edition'' ''Samsung'') \<le> length ''Galaxy '')"
proof -
  have m: "brandStripped ''Galaxy 128GB Edition'' ''Samsung'' = ''Galaxy '' @ ''128GB'' @ '' Edition''"
    by code_simp
  have t: "''128GB'' \<in> set storageTokens"
    by (simp add: storageTokens_def)
  have "list_all (\<lambda>c. \<not> isLineTerminator c) '' Edition''"
    by code_simp
  then have r: "\<forall>c\<in>set '' Edition''. \<not> isLineTerminator c"
    by (simp only: list_all_iff)
  from extractModelName_cuts_at_first_token [of "''Galaxy 128GB Edition''" "''Samsung''"
      storageTokens "[]" "''Galaxy ''" "''128GB''" "'' Edition''" "''128GB''"]
  have "brandStripped ''Galaxy 128GB Edition'' ''Samsung'' = ''Galaxy '' @ ''128GB'' @ '' Edition''
        \<and> ''128GB'' \<in> set storageTokens
        \<and> map canonicalize ''128GB'' = map canonicalize ''128GB''
        \<and> (\<forall>c\<in>set '' Edition''. \<not> isLineTerminator c)
      \<longrightarrow> extractModelName ''Galaxy 128GB Edition'' ''Samsung'' = ''Galaxy 128GB Edition''
        \<or> length (extractModelName ''Galaxy 128GB Edition'' ''Samsung'') \<le> length ''Galaxy ''"
    by (elim conjE)
  with m t r show ?thesis by blast
qed

section \<open>Devices whose name is the name of an inherited property\<close>

lemma foldedDevices_complete:
  "isNormal (processDevices mfr ds cat) \<Longrightarrow> foldedDevices mfr ds cat = ds"
  by (induction ds arbitrary: cat) (auto split: outcome.splits)

lemma foldedDevices_prefix: "prefix (foldedDevices mfr ds cat) ds"
  by (induction ds arbitrary: cat) (auto split: outcome.splits)

lemma processDevices_folded:
  "variantsOf k (catalogOf (processDevices mfr ds cat)) =
     mergeVariants (variantsOf k cat)
       (concat (map (deviceVariants mfr)
          (filter (\<lambda>d. deviceKey mfr d = k) (foldedDevices mfr ds cat))))"
proof (induction ds arbitrary: cat)
  case Nil
  show ?case by simp
next
  case (Cons d ds)
  show ?case
  proof (cases "processDevice mfr d cat")
    case (TypeError cat')
    with processDevice_TypeError_variants [OF TypeError, of k] show ?thesis by simp
  next
    case (Normal cat')
    with Cons.IH [of cat'] processDevice_Normal [OF Normal, of k] show ?thesis
      by (auto simp: mergeVariants_append)
  qed
qed

text \<open>
  What holds on every stream of devices. In the catalog that a run publishes, every
  variant list has pairwise distinct elements, and folding any list of devices into a
  catalog with that property keeps it. The devices of a list that are folded are those
  before the first one that throws, all of them when none throws. The variant list of
  every model is the list already there followed by the variants of the folded devices
  with that key, in the order of the devices, each variant at its first occurrence
  only; a variant that two folded devices with the same key share is in the list
  exactly once.
\<close>

lemma variants_of_folded_devices:
  "(published (serve w) = Some pub \<longrightarrow> variantsDistinct pub)
   \<and> (variantsDistinct cat \<longrightarrow> variantsDistinct (catalogOf (processDevices mfr ds cat)))
   \<and> prefix (foldedDevices mfr ds cat) ds
   \<and> (isNormal (processDevices mfr ds cat) \<longrightarrow> foldedDevices mfr ds cat = ds)
   \<and> (variantsDistinct cat \<longrightarrow>
        variantsOf k (catalogOf (processDevices mfr ds cat)) =
          firstSeen (variantsOf k cat @
            concat (map (deviceVariants mfr)
              (filter (\<lambda>d. deviceKey mfr d = k) (foldedDevices mfr ds cat)))))
   \<and> (variantsDistinct cat
        \<and> d1 \<in> set (foldedDevices mfr ds cat) \<and> d2 \<in> set (foldedDevices mfr ds cat)
        \<and> deviceKey mfr d1 = k \<and> deviceKey mfr d2 = k
        \<and> v \<in> set (deviceVariants mfr d1) \<and> v \<in> set (deviceVariants mfr d2) \<longrightarrow>
        count_list (variantsOf k (catalogOf (processDevices mfr ds cat))) v = 1)"
proof -
  let ?cat' = "catalogOf (processDevices mfr ds cat)"
  let ?folded = "foldedDevices mfr ds cat"
  have A: "variantsDistinct pub" if "published (serve w) = Some pub"
    using published_invariant [of "\<lambda>ds. True" variantsDistinct w pub]
      processDevices_distinct variantsDistinct_initialCatalog that by blast
  have B: "variantsDistinct ?cat'" if "variantsDistinct cat"
    using processDevices_distinct [OF that] .
  have dk: "distinct (variantsOf k cat)" if "variantsDistinct cat"
    using that by (simp add: variantsDistinct_def variantsOf_def split: prod.splits)
  have dk': "distinct (variantsOf k ?cat')" if "variantsDistinct cat"
    using B [OF that] by (simp add: variantsDistinct_def variantsOf_def split: prod.splits)
  have merged: "variantsOf k ?cat' =
      mergeVariants (variantsOf k cat)
        (concat (map (deviceVariants mfr) (filter (\<lambda>d. deviceKey mfr d = k) ?folded)))"
    by (rule processDevices_folded)
  have C: "variantsOf k ?cat' =
          firstSeen (variantsOf k cat @
            concat (map (deviceVariants mfr) (filter (\<lambda>d. deviceKey mfr d = k) ?folded)))"
    if "variantsDistinct cat"
    using merged mergeVariants_firstSeen [OF dk [OF that]] by simp
  have D: "count_list (variantsOf k ?cat') v = 1"
    if "variantsDistinct cat" "d1 \<in> set ?folded" "deviceKey mfr d1 = k"
       "v \<in> set (deviceVariants mfr d1)"
  proof -
    have "v \<in> set (variantsOf k ?cat')"
      using merged that(2,3,4) by (auto simp: set_mergeVariants)
    with dk' [OF that(1)] show ?thesis by (rule count_list_distinct)
  qed
  from A B C D foldedDevices_prefix [of mfr ds cat] foldedDevices_complete [of mfr ds cat]
  show ?thesis by blast
qed

text \<open>
  Claim C2. For every stream of devices folded into the catalog, every variant list has
  pairwise distinct elements in the order in which the variants were first seen, and
  for any two devices that produce the same category, brand, model and variant, the
  variant list has that variant exactly once. The code does so for the devices it
  folds, but it does not fold every device of the stream. The guard
  \<^verbatim>\<open>if (!models[modelName])\<close> finds the inherited method for a device named
  \<^verbatim>\<open>toString\<close>, no entry is created, and \<^verbatim>\<open>models[modelName].variants.includes\<close>
  throws; the \<^verbatim>\<open>catch\<close> of the manufacturer drops the rest of the list. Here the
  devices \<^verbatim>\<open>B X1\<close> and \<^verbatim>\<open>B X1 Blue\<close> both produce the variant
  \<^verbatim>\<open>64GB\<close> of the model \<^verbatim>\<open>X1\<close>. Folded alone, the list of the model is
  \<^verbatim>\<open>64GB\<close>, \<^verbatim>\<open>1TB\<close>; after the device named \<^verbatim>\<open>toString\<close>, none of the
  three devices is folded and the variant is in the list zero times, not once.
\<close>

theorem shared_variant_lost_after_inherited_name:
  "deviceKey ''B'' (sampleDevice ''B X1'' (Some ''64GB'')) = (''phone'', ''B'', ''X1'')
   \<and> deviceKey ''B'' (sampleDevice ''B X1 Blue'' (Some ''64GB,1TB'')) = (''phone'', ''B'', ''X1'')
   \<and> deviceVariants ''B'' (sampleDevice ''B X1'' (Some ''64GB'')) = [''64GB'']
   \<and> deviceVariants ''B'' (sampleDevice ''B X1 Blue'' (Some ''64GB,1TB'')) = [''64GB'', ''1TB'']
   \<and> deviceKey ''B'' (sampleDevice ''toString'' None) = (''phone'', ''B'', ''toString'')
   \<and> deviceVariants ''B'' (sampleDevice ''toString'' None) = [''toString'']
   \<and> variantsOf (''phone'', ''B'', ''X1'')
        (catalogOf (processDevices ''B''
           [sampleDevice ''B X1'' (Some ''64GB''), sampleDevice ''B X1 Blue'' (Some ''64GB,1TB'')]
           (initialCatalog ''t''))) = [''64GB'', ''1TB'']
   \<and> \<not> isNormal (processDevice ''B'' (sampleDevice ''toString'' None) (initialCatalog ''t''))
   \<and> foldedDevices ''B'' inheritedNameDevices (initialCatalog ''t'') = []
   \<and> variantsOf (''phone'', ''B'', ''X1'')
        (catalogOf (processDevices ''B'' inheritedNameDevices (initialCatalog ''t''))) = []
   \<and> count_list (variantsOf (''phone'', ''B'', ''X1'')
        (catalogOf (processDevices ''B'' inheritedNameDevices (initialCatalog ''t'')))) ''64GB'' = 0"
  by code_simp

text \<open>
  Claim C4. A manufacturer whose devices request throws, or returns an empty or
  non-array result, logs a warning, contributes no device and the loop continues; such
  a failure never makes the run fail; for the manufacturers A and B where the request
  of A throws, the final catalog contains the devices of B and the run reaches success.
  The first parts hold on every run (\<open>manufacturer_failure_general\<close>). The final
  catalog contains the devices of B only when the fold of the list of B completes. In
  the run below the request of A throws and B has the devices \<^verbatim>\<open>toString\<close> and
  \<^verbatim>\<open>B X1\<close>: the fold of the first throws, the \<^verbatim>\<open>catch\<close> meant
  for the failed request logs the warning, and the run answers with success and
  publishes a catalog that has neither device of B. Without the device named
  \<^verbatim>\<open>toString\<close> the model \<^verbatim>\<open>X1\<close> is published.
\<close>

theorem devices_of_B_lost_after_inherited_name:
  "response (serve inheritedNameWorld) = Success ''2025-01-01T00:00:00.000Z''
   \<and> devicesResponse inheritedNameWorld 0 = FetchError ''HTTP 500''
   \<and> devicesResponse inheritedNameWorld 1 =
       Fetched (Array [sampleDevice ''toString'' None, sampleDevice ''B X1'' (Some ''64GB'')])
   \<and> deviceKey ''B'' (sampleDevice ''B X1'' (Some ''64GB'')) = (''phone'', ''B'', ''X1'')
   \<and> deviceKey ''B'' (sampleDevice ''toString'' None) = (''phone'', ''B'', ''toString'')
   \<and> Warn (FailedToFetchDevices ''B'' TypeErrorThrown) \<in> set (trace (serve inheritedNameWorld))
   \<and> map_option (lookupModel ''phone'' ''B'' ''X1'') (published (serve inheritedNameWorld))
       = Some None
   \<and> map_option (lookupModel ''phone'' ''B'' ''toString'') (published (serve inheritedNameWorld))
       = Some None
   \<and> map_option (lookupModel ''phone'' ''B'' ''X1'') (published (serve twoManufacturersWorld))
       = Some (Some \<lparr>variants = [''64GB'']\<rparr>)"
  by code_simp

section \<open>Models and their first variant\<close>

lemma isWhiteSpace_space: "isWhiteSpace (CHR '' '')"
  by code_simp

lemma set_trim: "set (trim s) \<subseteq> set s"
proof
  fix c assume "c \<in> set (trim s)"
  then have "c \<in> set (dropWhile isWhiteSpace (rev (dropWhile isWhiteSpace s)))"
    by (simp add: trim_def)
  then have "c \<in> set (rev (dropWhile isWhiteSpace s))" by (rule set_dropWhileD)
  then have "c \<in> set (dropWhile isWhiteSpace s)" by simp
  then show "c \<in> set s" by (rule set_dropWhileD)
qed

lemma set_removeSuffixMatch: "set (removeSuffixMatch toks s) \<subseteq> set s"
  by (induction s) auto

lemma visible_dropWhile: "c \<in> set s \<Longrightarrow> \<not> P c \<Longrightarrow> c \<in> set (dropWhile P s)"
  by (induction s) auto

lemma visible_trim: "c \<in> set s \<Longrightarrow> \<not> isWhiteSpace c \<Longrightarrow> c \<in> set (trim s)"
  by (simp add: trim_def visible_dropWhile)

lemma trim_trim_nonempty: "trim s \<noteq> [] \<Longrightarrow> trim (trim s) \<noteq> []"
  by (meson trim_eq_Nil_iff visible_trim)

lemma trim_append_Nil: "trim (a @ b) = [] \<longleftrightarrow> trim a = [] \<and> trim b = []"
  by (auto simp: trim_eq_Nil_iff)

lemma extractModelName_blank:
  assumes "trim deviceName = []"
  shows "extractModelName deviceName brandName = deviceName"
proof -
  let ?m0 = "if startsWith (toLowerCase deviceName) (toLowerCase brandName)
             then trim (substring deviceName (length brandName)) else deviceName"
  have "set ?m0 \<subseteq> set deviceName"
    using set_trim [of "drop (length brandName) deviceName"]
    by (auto simp: substring_def dest: in_set_dropD)
  then have "set (removeSuffixMatch colorTokens (removeSuffixMatch storageTokens ?m0)) \<subseteq> set deviceName"
    using set_removeSuffixMatch [of colorTokens "removeSuffixMatch storageTokens ?m0"]
      set_removeSuffixMatch [of storageTokens ?m0]
    by blast
  with assms have "trim (removeSuffixMatch colorTokens (removeSuffixMatch storageTokens ?m0)) = []"
    by (auto simp: trim_eq_Nil_iff)
  then show ?thesis
    by (simp add: extractModelName_def Let_def)
qed

lemma extractModelName_trim_iff:
  "trim (extractModelName deviceName brandName) = [] \<longleftrightarrow> trim deviceName = []"
proof
  assume "trim deviceName = []"
  then show "trim (extractModelName deviceName brandName) = []"
    by (simp add: extractModelName_blank)
next
  assume blank: "trim (extractModelName deviceName brandName) = []"
  show "trim deviceName = []"
  proof (rule ccontr)
    assume "trim deviceName \<noteq> []"
    then have "trim (extractModelName deviceName brandName) \<noteq> []"
      by (simp add: extractModelName_def Let_def trim_trim_nonempty)
    with blank show False by simp
  qed
qed

lemma tupleVariants_Nil_iff:
  "tupleVariants m sv raw = [] \<longleftrightarrow> sv = [] \<and> trim m = [] \<and> trim (js_or raw []) = []"
proof -
  have "trim (m @ '' '' @ js_or raw []) = [] \<longleftrightarrow> trim m = [] \<and> trim (js_or raw []) = []"
    using isWhiteSpace_space by (auto simp: trim_eq_Nil_iff)
  then show ?thesis
    by (auto simp: tupleVariants_def)
qed

lemma deviceVariants_Nil_iff:
  "deviceVariants mfr d = [] \<longleftrightarrow>
     extractStorageVariants (storage d) = [] \<and> trim (deviceNameOf d) = []
       \<and> trim (js_or (storage d) []) = []"
  by (simp add: deviceVariants_def tupleVariants_Nil_iff extractModelName_trim_iff)

lemma processDevice_nonempty:
  assumes inv: "variantsNonEmpty cat" and yields: "deviceVariants mfr d \<noteq> []"
  shows "variantsNonEmpty (catalogOf (processDevice mfr d cat))"
proof (cases "processDevice mfr d cat")
  case (TypeError cat')
  have "lookupModel c b m cat' = lookupModel c b m cat" for c b m
    using processDevice_TypeError [OF TypeError] .
  with inv TypeError show ?thesis by (simp add: variantsNonEmpty_def variantsAt_def)
next
  case (Normal cat')
  have "variantsAt c b m cat' \<noteq> []" if present: "lookupModel c b m cat' \<noteq> None" for c b m
  proof (cases "(c, b, m) = deviceKey mfr d")
    case True
    from processDevice_Normal [OF Normal, of "(c, b, m)"] True [symmetric]
    have "variantsAt c b m cat' = mergeVariants (variantsAt c b m cat) (deviceVariants mfr d)"
      by (simp add: variantsOf_def)
    with yields show ?thesis
      by (simp add: mergeVariants_nonempty)
  next
    case False
    from processDevice_Normal_lookup [OF Normal, of "(c, b, m)"] False present
    have "lookupModel c b m cat \<noteq> None" by simp
    with inv have "variantsAt c b m cat \<noteq> []" by (simp add: variantsNonEmpty_def)
    with processDevice_Normal [OF Normal, of "(c, b, m)"] False show ?thesis
      by (simp add: variantsOf_def)
  qed
  with Normal show ?thesis by (simp add: variantsNonEmpty_def)
qed

lemma processDevices_nonempty:
  "variantsNonEmpty cat \<Longrightarrow> \<forall>d\<in>set ds. deviceVariants mfr d \<noteq> [] \<Longrightarrow>
   variantsNonEmpty (catalogOf (processDevices mfr ds cat))"
proof (induction ds arbitrary: cat)
  case Nil
  then show ?case by simp
next
  case (Cons d ds)
  from Cons.prems have "variantsNonEmpty (catalogOf (processDevice mfr d cat))"
    by (simp add: processDevice_nonempty)
  with Cons show ?case
    by (cases "processDevice mfr d cat") simp_all
qed

lemma processDevice_creates_empty:
  assumes none: "deviceVariants mfr d = []"
    and brand: "brandNameOf mfr d \<notin> set objectPrototypeKeys"
    and fresh: "(case deviceKey mfr d of (c, b, m) \<Rightarrow> lookupModel c b m cat) = None"
  shows "(case deviceKey mfr d of (c, b, m) \<Rightarrow>
            lookupModel c b m (catalogOf (processDevice mfr d cat))) \<noteq> None"
    and "variantsOf (deviceKey mfr d) (catalogOf (processDevice mfr d cat)) = []"
proof -
  let ?m = "extractModelName (deviceNameOf d) (brandNameOf mfr d)"
  from none have "trim ?m = []"
    by (simp add: deviceVariants_def tupleVariants_Nil_iff)
  then have model: "?m \<notin> set objectPrototypeKeys"
    using prototypeKey_variantName [of ?m "[]"] by auto
  have "isNormal (processDevice mfr d cat)"
    using brand model categoryKey_not_inherited
    by (simp add: processDevice_def Let_def addToCatalog_isNormal)
  then have n: "processDevice mfr d cat = Normal (catalogOf (processDevice mfr d cat))"
    by (rule isNormal_catalogOf)
  from processDevice_Normal_lookup [OF n, of "deviceKey mfr d"]
  show "(case deviceKey mfr d of (c, b, m) \<Rightarrow>
            lookupModel c b m (catalogOf (processDevice mfr d cat))) \<noteq> None"
    by simp
  have "variantsOf (deviceKey mfr d) cat = []"
    using fresh by (simp add: variantsOf_def variantsAt_def split: prod.splits)
  with processDevice_Normal [OF n, of "deviceKey mfr d"] none
  show "variantsOf (deviceKey mfr d) (catalogOf (processDevice mfr d cat)) = []"
    by simp
qed

text \<open>
  Claim C5, as stated: after processing any device, every model key present in the
  catalog has a non-empty variants list, because a model entry is only created in the
  step that appends its first variant. The entry is created before the variant is
  built, and the synthetic variant is pushed only when it is not empty after trimming:
  a device without storage whose name is two spaces creates the model and leaves its
  list empty.
\<close>

theorem whitespace_name_counterexample:
  "lookupModel ''phone'' ''Acme'' ''  ''
     (catalogOf (processDevice ''Acme'' (sampleDevice ''  '' None) (initialCatalog ''t'')))
   = Some \<lparr>variants = []\<rparr>"
  by code_simp

text \<open>
  Claim C5, amended. After processing any device that yields at least one variant, a
  storage token or a synthetic variant that is not empty, every model key present in
  the catalog has a non-empty variants list, given that this held before; so it is
  after any list of such devices, and in the catalog published by a run all of whose
  devices are such. A device yields no variant exactly when its storage field has no
  token and both its name, after the fall-back to \<^verbatim>\<open>brand_name\<close> and
  \<^verbatim>\<open>Unknown Device\<close>, and its storage field consist of white space only. Such a
  device, when its brand name is not the name of an inherited property and its model is
  not yet in the catalog, creates the model entry with an empty variants list.
\<close>

theorem variants_nonempty_when_device_yields_variant:
  "variantsNonEmpty (initialCatalog t)
   \<and> (deviceVariants mfr d = [] \<longleftrightarrow>
        extractStorageVariants (storage d) = [] \<and> trim (deviceNameOf d) = []
          \<and> trim (js_or (storage d) []) = [])
   \<and> (trim (deviceNameOf d) = [] \<longleftrightarrow> (\<forall>c\<in>set (deviceNameOf d). isWhiteSpace c))
   \<and> (variantsNonEmpty cat \<and> deviceVariants mfr d \<noteq> [] \<longrightarrow>
        variantsNonEmpty (catalogOf (processDevice mfr d cat)))
   \<and> (variantsNonEmpty cat \<and> (\<forall>x\<in>set ds. deviceVariants mfr x \<noteq> []) \<longrightarrow>
        variantsNonEmpty (catalogOf (processDevices mfr ds cat)))
   \<and> ((\<forall>i xs x. devicesResponse w i = Fetched (Array xs) \<and> x \<in> set xs \<longrightarrow>
          extractStorageVariants (storage x) \<noteq> [] \<or> trim (deviceNameOf x) \<noteq> []
            \<or> trim (js_or (storage x) []) \<noteq> [])
        \<and> published (serve w) = Some pub \<longrightarrow> variantsNonEmpty pub)
   \<and> (deviceVariants mfr d = [] \<and> brandNameOf mfr d \<notin> set objectPrototypeKeys
        \<and> (case deviceKey mfr d of (c, b, m) \<Rightarrow> lookupModel c b m cat) = None \<longrightarrow>
        (case deviceKey mfr d of (c, b, m) \<Rightarrow>
            lookupModel c b m (catalogOf (processDevice mfr d cat))) \<noteq> None
        \<and> variantsOf (deviceKey mfr d) (catalogOf (processDevice mfr d cat)) = []
        \<and> \<not> variantsNonEmpty (catalogOf (processDevice mfr d cat)))"
proof -
  have D: "variantsNonEmpty pub"
    if resp: "\<forall>i xs x. devicesResponse w i = Fetched (Array xs) \<and> x \<in> set xs \<longrightarrow>
          extractStorageVariants (storage x) \<noteq> [] \<or> trim (deviceNameOf x) \<noteq> []
            \<or> trim (js_or (storage x) []) \<noteq> []"
      and pub: "published (serve w) = Some pub"
  proof (rule published_invariant [where Q = "\<lambda>xs. \<forall>x\<in>set xs.
          extractStorageVariants (storage x) \<noteq> [] \<or> trim (deviceNameOf x) \<noteq> []
            \<or> trim (js_or (storage x) []) \<noteq> []"
        and P = variantsNonEmpty, OF _ _ _ pub])
    show "variantsNonEmpty (catalogOf (processDevices mfr xs c))"
      if "\<forall>x\<in>set xs. extractStorageVariants (storage x) \<noteq> [] \<or> trim (deviceNameOf x) \<noteq> []
            \<or> trim (js_or (storage x) []) \<noteq> []" "variantsNonEmpty c" for mfr xs c
    proof -
      from that(1) have "\<forall>x\<in>set xs. deviceVariants mfr x \<noteq> []"
        by (simp add: deviceVariants_Nil_iff)
      with that(2) show ?thesis by (simp add: processDevices_nonempty)
    qed
    show "\<forall>x\<in>set xs. extractStorageVariants (storage x) \<noteq> [] \<or> trim (deviceNameOf x) \<noteq> []
            \<or> trim (js_or (storage x) []) \<noteq> []"
      if "devicesResponse w i = Fetched (Array xs)" for i xs
      using resp that by blast
    show "variantsNonEmpty (initialCatalog (now w))"
      by (rule variantsNonEmpty_initialCatalog)
  qed
  have E: "(case deviceKey mfr d of (c, b, m) \<Rightarrow>
            lookupModel c b m (catalogOf (processDevice mfr d cat))) \<noteq> None
        \<and> variantsOf (deviceKey mfr d) (catalogOf (processDevice mfr d cat)) = []
        \<and> \<not> variantsNonEmpty (catalogOf (processDevice mfr d cat))"
    if "deviceVariants mfr d = []" "brandNameOf mfr d \<notin> set objectPrototypeKeys"
       "(case deviceKey mfr d of (c, b, m) \<Rightarrow> lookupModel c b m cat) = None"
  proof -
    note c = processDevice_creates_empty [OF that]
    obtain c' b' m' where k: "deviceKey mfr d = (c', b', m')" by (cases "deviceKey mfr d")
    from c k have "lookupModel c' b' m' (catalogOf (processDevice mfr d cat)) \<noteq> None"
      "variantsAt c' b' m' (catalogOf (processDevice mfr d cat)) = []"
      by (simp_all add: variantsOf_def)
    then have "\<not> variantsNonEmpty (catalogOf (processDevice mfr d cat))"
      unfolding variantsNonEmpty_def by blast
    with c show ?thesis by simp
  qed
  from D E variantsNonEmpty_initialCatalog [of t] deviceVariants_Nil_iff [of mfr d]
    trim_eq_Nil_iff [of "deviceNameOf d"] processDevice_nonempty [of cat mfr d]
    processDevices_nonempty [of cat ds mfr]
  show ?thesis by blast
qed

theorem variants_nonempty_when_device_yields_variant_witness:
  "deviceVariants ''Google'' (sampleDevice ''  '' (Some ''64GB'')) \<noteq> []
   \<and> variantsNonEmpty (catalogOf (processDevice ''Google'' (sampleDevice ''  '' (Some ''64GB''))
        (initialCatalog ''t'')))
   \<and> variantsNonEmpty (catalogOf (processDevices ''Google''
        [sampleDevice ''  '' (Some ''64GB'')] (initialCatalog ''t'')))
   \<and> deviceVariants ''Acme'' (sampleDevice ''  '' None) = []
   \<and> \<not> variantsNonEmpty (catalogOf (processDevice ''Acme'' (sampleDevice ''  '' None)
        (initialCatalog ''t'')))"
proof -
  have y: "deviceVariants ''Google'' (sampleDevice ''  '' (Some ''64GB'')) \<noteq> []" by code_simp
  have n: "deviceVariants ''Acme'' (sampleDevice ''  '' None) = []" by code_simp
  have b: "brandNameOf ''Acme'' (sampleDevice ''  '' None) = ''Acme''" by code_simp
  have safe: "''Acme'' \<notin> set objectPrototypeKeys" by (simp add: objectPrototypeKeys_def)
  have fresh: "(case deviceKey ''Acme'' (sampleDevice ''  '' None) of
                  (c, b, m) \<Rightarrow> lookupModel c b m (initialCatalog ''t'')) = None"
    by (simp add: lookupModel_initialCatalog split: prod.splits)
  from variants_nonempty_when_device_yields_variant [of "''t''" "''Google''"
      "sampleDevice ''  '' (Some ''64GB'')" "initialCatalog ''t''"
      "[sampleDevice ''  '' (Some ''64GB'')]" w pub]
    variants_nonempty_when_device_yields_variant [of "''t''" "''Acme''"
      "sampleDevice ''  '' None" "initialCatalog ''t''" "[]" w pub]
    y n b safe fresh
  show ?thesis by simp
qed

end
